theory Spec2Isabelle
  imports Complex_Main "HOL-Library.Word" "HOL-Library.Log_Nat"
begin

chapter \<open>Network protocol library: DNS resolver, data block receiver, reliable message channel\<close>

section \<open>DNSResolver (src/src/DNSResolver.cpp)\<close>

text \<open>
  The resolver keeps two \<open>std::map\<close>s from names to \<open>ResolveEntry*\<close>: \<open>map\<close> (the cache)
  and \<open>in_progress\<close>. Both hold the same pointer for a name whose lookup is running, and
  \<open>Update\<close> writes status and result through the pointer of \<open>in_progress\<close>, so the
  entries live in an explicit store \<open>heap\<close> from addresses to entries and the two maps
  hold addresses. A \<open>std::map\<close> iterates in key order: it is an association list kept
  sorted by key.

  A \<open>ResolveCallback\<close> is a \<open>std::function\<close>; it is modelled by an identifier, and the
  empty function by \<open>None\<close>. Calling a callback appends \<open>(callback, name, result)\<close> to the
  list of invocations that the operation returns. The \<open>std::future\<close> of an entry belongs
  to another thread: whether it is ready, and with which result, is an input of
  \<open>Update\<close> (the function \<open>ready\<close>, \<open>None\<close> while the lookup runs).
\<close>

datatype ResolveStatus = RESOLVE_IN_PROGRESS | RESOLVE_SUCCEEDED | RESOLVE_FAILED

type_synonym ResolveResult = "string list"

type_synonym ResolveCallback = "nat option"

type_synonym Invocation = "nat \<times> string \<times> ResolveResult option"

record ResolveEntry =
  status :: ResolveStatus
  result :: "ResolveResult option"
  callbacks :: "nat list"

record DNSResolver =
  heap :: "nat \<Rightarrow> ResolveEntry"
  next_entry :: nat
  map_tbl :: "(string \<times> nat) list"
  in_progress :: "(string \<times> nat) list"

text \<open>\<open>std::map::operator[]\<close> assignment on the sorted association list; keys are compared
  as \<open>std::string\<close> does, lexicographically by character code.\<close>

fun string_less :: "string \<Rightarrow> string \<Rightarrow> bool" where
  "string_less [] [] = False"
| "string_less [] (y # ys) = True"
| "string_less (x # xs) [] = False"
| "string_less (x # xs) (y # ys) =
     (of_char x < (of_char y :: nat) \<or> (x = y \<and> string_less xs ys))"

fun map_put :: "string \<Rightarrow> nat \<Rightarrow> (string \<times> nat) list \<Rightarrow> (string \<times> nat) list" where
  "map_put k v [] = [(k, v)]"
| "map_put k v ((k', v') # m) =
     (if k = k' then (k, v) # m
      else if string_less k k' then (k, v) # (k', v') # m
      else (k', v') # map_put k v m)"

definition DNSResolver_init :: DNSResolver where
  "DNSResolver_init =
     \<lparr>heap = (\<lambda>_. \<lparr>status = RESOLVE_IN_PROGRESS, result = None, callbacks = []\<rparr>),
      next_entry = 0, map_tbl = [], in_progress = []\<rparr>"

definition Resolve :: "string \<Rightarrow> ResolveCallback \<Rightarrow> DNSResolver \<Rightarrow> Invocation list \<times> DNSResolver" where
  "Resolve name callback r =
     (case map_of (map_tbl r) name of
        Some a \<Rightarrow>
          (let entry = heap r a in
           case status entry of
             RESOLVE_IN_PROGRESS \<Rightarrow>
               (case callback of
                  Some cb \<Rightarrow>
                    ([], r\<lparr>heap := (heap r)(a := entry\<lparr>callbacks := callbacks entry @ [cb]\<rparr>)\<rparr>)
                | None \<Rightarrow> ([], r))
           | RESOLVE_SUCCEEDED \<Rightarrow>
               (case callback of Some cb \<Rightarrow> ([(cb, name, result entry)], r) | None \<Rightarrow> ([], r))
           | RESOLVE_FAILED \<Rightarrow>
               (case callback of Some cb \<Rightarrow> ([(cb, name, result entry)], r) | None \<Rightarrow> ([], r)))
      | None \<Rightarrow>
          (let a = next_entry r;
               entry = \<lparr>status = RESOLVE_IN_PROGRESS, result = None,
                        callbacks = (case callback of Some cb \<Rightarrow> [cb] | None \<Rightarrow> [])\<rparr>
           in ([], r\<lparr>heap := (heap r)(a := entry), next_entry := Suc a,
                     map_tbl := map_put name a (map_tbl r),
                     in_progress := map_put name a (in_progress r)\<rparr>)))"

text \<open>The loop of \<open>Update\<close> over \<open>in_progress\<close>: the entries still to visit, the heap, the
  entries kept so far and the invocations made so far.\<close>

fun Update_loop ::
  "(nat \<Rightarrow> ResolveResult option option) \<Rightarrow> (string \<times> nat) list \<Rightarrow> (nat \<Rightarrow> ResolveEntry) \<Rightarrow>
   Invocation list \<times> (nat \<Rightarrow> ResolveEntry) \<times> (string \<times> nat) list" where
  "Update_loop ready [] h = ([], h, [])"
| "Update_loop ready ((name, a) # rest) h =
     (case ready a of
        Some res \<Rightarrow>
          (let entry = h a;
               entry' = entry\<lparr>result := res,
                              status := (if res \<noteq> None then RESOLVE_SUCCEEDED else RESOLVE_FAILED)\<rparr>;
               calls = map (\<lambda>cb. (cb, name, res)) (callbacks entry');
               (calls', h', kept) = Update_loop ready rest (h(a := entry'))
           in (calls @ calls', h', kept))
      | None \<Rightarrow>
          (let (calls', h', kept) = Update_loop ready rest h
           in (calls', h', (name, a) # kept)))"

definition Update_DNS ::
  "(nat \<Rightarrow> ResolveResult option option) \<Rightarrow> DNSResolver \<Rightarrow> Invocation list \<times> DNSResolver" where
  "Update_DNS ready r =
     (let (calls, h', kept) = Update_loop ready (in_progress r) (heap r)
      in (calls, r\<lparr>heap := h', in_progress := kept\<rparr>))"

definition Clear_DNS :: "DNSResolver \<Rightarrow> DNSResolver" where
  "Clear_DNS r = r\<lparr>map_tbl := []\<rparr>"

definition GetEntry :: "string \<Rightarrow> DNSResolver \<Rightarrow> ResolveEntry option" where
  "GetEntry name r = map_option (heap r) (map_of (map_tbl r) name)"

text \<open>Sequences of operations of the host on one resolver, with the callbacks that they
  invoke, in order. An \<open>Update\<close> comes with the state of the futures at that moment.\<close>

datatype DNS_operation =
  DoResolve string ResolveCallback
| DoUpdate_DNS "nat \<Rightarrow> ResolveResult option option"
| DoClear_DNS

fun step_DNS :: "DNS_operation \<Rightarrow> DNSResolver \<Rightarrow> Invocation list \<times> DNSResolver" where
  "step_DNS (DoResolve name callback) r = Resolve name callback r"
| "step_DNS (DoUpdate_DNS ready) r = Update_DNS ready r"
| "step_DNS DoClear_DNS r = ([], Clear_DNS r)"

fun run_DNS :: "DNS_operation list \<Rightarrow> DNSResolver \<Rightarrow> Invocation list \<times> DNSResolver" where
  "run_DNS [] r = ([], r)"
| "run_DNS (x # xs) r =
     (let (calls, r') = step_DNS x r;
          (calls', r'') = run_DNS xs r'
      in (calls @ calls', r''))"

text \<open>The callbacks that the operations \<open>ops\<close> pass to \<open>Resolve\<close> for the name \<open>name\<close>, and
  the invocations for the name \<open>name\<close> among \<open>calls\<close>.\<close>

fun queued :: "string \<Rightarrow> DNS_operation list \<Rightarrow> nat list" where
  "queued name [] = []"
| "queued name (DoResolve n (Some cb) # ops) =
     (if n = name then cb # queued name ops else queued name ops)"
| "queued name (x # ops) = queued name ops"

definition invocations_of :: "string \<Rightarrow> Invocation list \<Rightarrow> Invocation list" where
  "invocations_of name calls = filter (\<lambda>(cb, n, res). n = name) calls"

text \<open>The invariant of the resolver: \<open>in_progress\<close> is sorted by name, no two of its names
  share an entry, its entries are allocated and in progress, the entries of the cache are
  allocated, and an entry of the cache that is in progress is in \<open>in_progress\<close> under the
  same name.\<close>

definition key_less :: "string \<times> nat \<Rightarrow> string \<times> nat \<Rightarrow> bool" where
  "key_less x y = string_less (fst x) (fst y)"

definition DNS_ok :: "DNSResolver \<Rightarrow> bool" where
  "DNS_ok r \<longleftrightarrow>
     sorted_wrt key_less (in_progress r) \<and>
     distinct (map snd (in_progress r)) \<and>
     (\<forall>(n, a) \<in> set (in_progress r). a < next_entry r \<and> status (heap r a) = RESOLVE_IN_PROGRESS) \<and>
     (\<forall>(n, a) \<in> set (map_tbl r). a < next_entry r) \<and>
     (\<forall>n a. map_of (map_tbl r) n = Some a \<and> status (heap r a) = RESOLVE_IN_PROGRESS \<longrightarrow>
              (n, a) \<in> set (in_progress r))"

text \<open>The lookup of \<open>name\<close> is running in the entry \<open>a\<close>, which holds the callbacks \<open>cbs\<close>.\<close>

definition pending :: "string \<Rightarrow> nat \<Rightarrow> nat list \<Rightarrow> DNSResolver \<Rightarrow> bool" where
  "pending name a cbs r \<longleftrightarrow>
     map_of (map_tbl r) name = Some a \<and> (name, a) \<in> set (in_progress r) \<and>
     status (heap r a) = RESOLVE_IN_PROGRESS \<and> callbacks (heap r a) = cbs"

text \<open>What \<open>Update\<close> does with one element of \<open>in_progress\<close> whose future is ready: the entry
  afterwards, and the invocations.\<close>

definition completed :: "ResolveResult option \<Rightarrow> ResolveEntry \<Rightarrow> ResolveEntry" where
  "completed res entry =
     entry\<lparr>result := res, status := (if res \<noteq> None then RESOLVE_SUCCEEDED else RESOLVE_FAILED)\<rparr>"

definition calls_of ::
  "(nat \<Rightarrow> ResolveResult option option) \<Rightarrow> (nat \<Rightarrow> ResolveEntry) \<Rightarrow> string \<times> nat \<Rightarrow> Invocation list" where
  "calls_of ready h x =
     (case ready (snd x) of
        Some res \<Rightarrow> map (\<lambda>cb. (cb, fst x, res)) (callbacks (h (snd x)))
      | None \<Rightarrow> [])"

text \<open>A result and a sequence of operations for concrete runs: another name is resolved, an
  \<open>Update\<close> finds the first lookup still running, and the first name is resolved again.\<close>

definition example_address :: ResolveResult where
  "example_address = [''10.0.0.1'']"

definition example_operations :: "DNS_operation list" where
  "example_operations =
     [DoResolve ''other'' (Some 3), DoUpdate_DNS (\<lambda>a. if a = 0 then None else Some None),
      DoResolve ''host'' (Some 4)]"

section \<open>Assertions and undefined behaviour\<close>

text \<open>
  \<open>assert\<close> and \<open>PROTOCOL_ASSERT\<close> end the program when their condition is false, and a
  read or write outside an array is undefined behaviour. Both are results of the model:
  an operation returns \<open>Inl\<close> of a \<open>failure\<close> where the source stops there, and \<open>Inr\<close>
  of its result otherwise. (The header of the message channel declares a variable inside
  \<open>#ifndef NDEBUG\<close> and uses it outside, so it only compiles with assertions on.)
\<close>

datatype failure = AssertionFailed | OutOfBounds

section \<open>DataBlockReceiver (src/src/DataBlockReceiver.cpp)\<close>

text \<open>
  The C++ \<open>int\<close>s are modelled by \<open>int\<close>; the buffers \<open>m_data\<close> and
  \<open>m_receivedFragment\<close> are byte lists of the allocated lengths. \<open>SendAck\<close> is a virtual
  method of the receiver: each call appends the fragment id to \<open>acks\<close>. The memory that
  \<open>Allocate\<close> returns is not initialised: the constructor takes its contents \<open>mem\<close> as
  an argument. \<open>MaxFragmentSize\<close> is declared in a header that is not part of the sources
  at hand and is an argument too.
\<close>

record Block =
  block_data :: "8 word list"
  block_size :: int

record DataBlockReceiver =
  m_data :: "8 word list"
  m_maxBlockSize :: int
  m_fragmentSize :: int
  m_maxFragments :: int
  m_receivedFragment :: "8 word list"
  m_blockSize :: int
  m_numFragments :: int
  m_numReceivedFragments :: int
  m_error :: int
  acks :: "int list"

text \<open>Modelled from the spec: the error code \<open>BlockTooLarge\<close> (the constant
  \<open>DATA_BLOCK_RECEIVER_ERROR_BLOCK_TOO_LARGE\<close> is declared in DataBlockReceiver.h, which is
  missing); only that it is not 0 matters.\<close>

definition DATA_BLOCK_RECEIVER_ERROR_BLOCK_TOO_LARGE :: int where
  "DATA_BLOCK_RECEIVER_ERROR_BLOCK_TOO_LARGE = 1"

definition Clear :: "DataBlockReceiver \<Rightarrow> DataBlockReceiver" where
  "Clear r = r\<lparr>m_blockSize := 0, m_numFragments := 0, m_numReceivedFragments := 0, m_error := 0,
               m_receivedFragment := replicate (nat (m_maxFragments r)) 0\<rparr>"

definition DataBlockReceiver_new ::
  "int \<Rightarrow> 8 word list \<Rightarrow> int \<Rightarrow> int \<Rightarrow> failure + DataBlockReceiver" where
  "DataBlockReceiver_new MaxFragmentSize mem fragmentSize maxBlockSize =
     (if \<not> fragmentSize > 0 then Inl AssertionFailed
      else if \<not> fragmentSize \<le> MaxFragmentSize then Inl AssertionFailed
      else if \<not> maxBlockSize > 0 then Inl AssertionFailed
      else
        let maxFragments =
              maxBlockSize div fragmentSize + (if maxBlockSize mod fragmentSize \<noteq> 0 then 1 else 0)
        in Inr (Clear \<lparr>m_data = mem, m_maxBlockSize = maxBlockSize, m_fragmentSize = fragmentSize,
                       m_maxFragments = maxFragments,
                       m_receivedFragment = replicate (nat maxFragments) 0,
                       m_blockSize = 0, m_numFragments = 0, m_numReceivedFragments = 0,
                       m_error = 0, acks = []\<rparr>))"

text \<open>\<open>memcpy( m_data + start, fragmentData, fragmentBytes )\<close>.\<close>

definition memcpy_at :: "8 word list \<Rightarrow> nat \<Rightarrow> 8 word list \<Rightarrow> nat \<Rightarrow> 8 word list" where
  "memcpy_at dst start src n = take start dst @ take n src @ drop (start + n) dst"

definition ProcessFragment ::
  "int \<Rightarrow> int \<Rightarrow> int \<Rightarrow> int \<Rightarrow> 8 word list \<Rightarrow> DataBlockReceiver \<Rightarrow> failure + DataBlockReceiver" where
  "ProcessFragment blockSize numFragments fragmentId fragmentBytes fragmentData r =
     (if blockSize > m_maxBlockSize r
      then Inr (r\<lparr>m_error := DATA_BLOCK_RECEIVER_ERROR_BLOCK_TOO_LARGE\<rparr>)
      else if m_error r \<noteq> 0 then Inr r
      else
        let r1 = (if m_blockSize r = 0 then r\<lparr>m_blockSize := blockSize\<rparr> else r) in
        if m_blockSize r1 \<noteq> blockSize then Inr r1
        else if m_numFragments r1 > m_maxFragments r1 then Inr r1
        else
          let r2 = (if m_numFragments r1 = 0 then r1\<lparr>m_numFragments := numFragments\<rparr> else r1) in
          if m_numFragments r2 \<noteq> numFragments then Inr r2
          else if fragmentId \<ge> m_numFragments r2 then Inr r2
          else
            let start = fragmentId * m_fragmentSize r2;
                finish = start + fragmentBytes
            in
            if \<not> finish \<le> m_blockSize r2 then Inl AssertionFailed
            else
              let r3 = r2\<lparr>acks := acks r2 @ [fragmentId]\<rparr> in
              if fragmentId < 0 \<or> \<not> nat fragmentId < length (m_receivedFragment r3)
              then Inl OutOfBounds
              else if m_receivedFragment r3 ! nat fragmentId = 0 then
                let r4 = r3\<lparr>m_receivedFragment := (m_receivedFragment r3)[nat fragmentId := 1],
                            m_numReceivedFragments := m_numReceivedFragments r3 + 1\<rparr>
                in
                if \<not> (m_numReceivedFragments r4 \<ge> 0 \<and> m_numReceivedFragments r4 \<le> m_numFragments r4)
                then Inl AssertionFailed
                else if fragmentBytes < 0 \<or> int (length fragmentData) < fragmentBytes \<or> start < 0
                        \<or> int (length (m_data r4)) < finish
                then Inl OutOfBounds
                else Inr (r4\<lparr>m_data := memcpy_at (m_data r4) (nat start) fragmentData (nat fragmentBytes)\<rparr>)
              else Inr r3)"

text \<open>Modelled from the spec: \<open>ReceiveCompleted\<close> is defined in DataBlockReceiver.h, which
  is missing; the spec reads "all \<open>num_fragments\<close> are received".\<close>

definition ReceiveCompleted :: "DataBlockReceiver \<Rightarrow> bool" where
  "ReceiveCompleted r = (m_numReceivedFragments r = m_numFragments r)"

text \<open>\<open>GetBlock\<close> connects \<open>m_block\<close> to the buffer \<open>m_data\<close> with size \<open>m_blockSize\<close> and
  returns it, or returns \<open>nullptr\<close>.\<close>

definition GetBlock :: "DataBlockReceiver \<Rightarrow> Block option" where
  "GetBlock r =
     (if ReceiveCompleted r \<and> m_blockSize r > 0
      then Some \<lparr>block_data = m_data r, block_size = m_blockSize r\<rparr>
      else None)"

text \<open>The sender's side of a block: fragment \<open>i\<close> of a block cut into pieces of
  \<open>fragmentSize\<close> bytes (the last one shorter), and the calls of \<open>ProcessFragment\<close> that
  deliver the fragments with the ids \<open>ids\<close>, in that order.\<close>

definition block_num_fragments :: "int \<Rightarrow> 8 word list \<Rightarrow> int" where
  "block_num_fragments fragmentSize block =
     int (length block) div fragmentSize + (if int (length block) mod fragmentSize \<noteq> 0 then 1 else 0)"

definition block_fragment :: "int \<Rightarrow> 8 word list \<Rightarrow> nat \<Rightarrow> 8 word list" where
  "block_fragment fragmentSize block i = take (nat fragmentSize) (drop (i * nat fragmentSize) block)"

fun deliver_fragments ::
  "int \<Rightarrow> 8 word list \<Rightarrow> nat list \<Rightarrow> DataBlockReceiver \<Rightarrow> failure + DataBlockReceiver" where
  "deliver_fragments fragmentSize block [] r = Inr r"
| "deliver_fragments fragmentSize block (i # ids) r =
     (case ProcessFragment (int (length block)) (block_num_fragments fragmentSize block) (int i)
             (int (length (block_fragment fragmentSize block i)))
             (block_fragment fragmentSize block i) r of
        Inl f \<Rightarrow> Inl f
      | Inr r' \<Rightarrow> deliver_fragments fragmentSize block ids r')"

text \<open>The number of fragments of \<open>n\<close> bytes, on natural numbers, and the invariant of a
  receiver that has been given the fragments \<open>S\<close> of \<open>block\<close> and nothing else: the flags
  and the counter describe \<open>S\<close>, and the buffer holds the bytes of these fragments.\<close>

definition count_fragments :: "nat \<Rightarrow> nat \<Rightarrow> nat" where
  "count_fragments fs n = n div fs + (if n mod fs \<noteq> 0 then 1 else 0)"

definition frag_inv :: "nat \<Rightarrow> 8 word list \<Rightarrow> nat \<Rightarrow> nat set \<Rightarrow> DataBlockReceiver \<Rightarrow> bool" where
  "frag_inv fs block M S r \<longleftrightarrow>
     m_maxBlockSize r = int M \<and> m_fragmentSize r = int fs \<and>
     m_maxFragments r = int (count_fragments fs M) \<and>
     length (m_data r) = M \<and> length (m_receivedFragment r) = count_fragments fs M \<and>
     m_error r = 0 \<and>
     S \<subseteq> {..< count_fragments fs (length block)} \<and>
     (\<forall>j < count_fragments fs M. (m_receivedFragment r ! j \<noteq> 0) = (j \<in> S)) \<and>
     m_numReceivedFragments r = int (card S) \<and>
     (m_blockSize r = int (length block) \<or> m_blockSize r = 0 \<and> S = {}) \<and>
     (m_numFragments r = int (count_fragments fs (length block)) \<or> m_numFragments r = 0 \<and> S = {}) \<and>
     (\<forall>j \<in> S. \<forall>p. j * fs \<le> p \<and> p < j * fs + fs \<and> p < length block \<longrightarrow> m_data r ! p = block ! p)"

section \<open>Sequence arithmetic and SlidingWindow\<close>

text \<open>
  Message ids and packet sequence numbers are \<open>uint16_t\<close>. The functions
  \<open>sequence_less_than\<close> and \<open>sequence_greater_than\<close> and the class template
  \<open>SlidingWindow\<close> are used by ReliableMessageChannel.h and defined in headers that are not
  among the sources.
\<close>

type_synonym uint16 = "16 word"

text \<open>Modelled from the spec: \<open>sequence_less_than\<close>, which is missing.
  "\<open>less_than(a,b)\<close> is true iff \<open>(b - a) mod 2^16\<close> lies in \<open>(0, 2^15)\<close>."\<close>

definition sequence_less_than :: "uint16 \<Rightarrow> uint16 \<Rightarrow> bool" where
  "sequence_less_than a b = (0 < unat (b - a) \<and> unat (b - a) < 2 ^ 15)"

text \<open>Modelled from the spec: \<open>sequence_greater_than\<close>, which is missing; the converse of
  \<open>sequence_less_than\<close> ("\<open>less_than\<close>/\<open>greater_than\<close> under 16-bit wraparound").\<close>

definition sequence_greater_than :: "uint16 \<Rightarrow> uint16 \<Rightarrow> bool" where
  "sequence_greater_than a b = sequence_less_than b a"

text \<open>
  The entries of the three windows of the channel all have the bit-fields \<open>sequence\<close>
  (16 bits) and \<open>valid\<close> (1 bit), which the template \<open>SlidingWindow\<close> reads: they are the
  fields of the record \<open>WindowEntry\<close>, which the three entry types extend.
\<close>

record WindowEntry =
  sequence :: uint16
  valid :: bool

text \<open>Modelled from the spec: the constructor of the class \<open>SlidingWindow\<close>, which is
  missing. A window of capacity \<open>N\<close> is "a contiguous array of \<open>N\<close> slots plus per-slot
  \<open>valid\<close> flag and stored sequence"; \<open>e0\<close> is the default-constructed entry.\<close>

definition SlidingWindow_new :: "int \<Rightarrow> 'a WindowEntry_scheme \<Rightarrow> 'a WindowEntry_scheme list" where
  "SlidingWindow_new n e0 = replicate (nat n) e0"

text \<open>Modelled from the spec: the slot of a sequence number in a \<open>SlidingWindow\<close>, which is
  missing. "Physical slot index is \<open>seq mod N\<close>."\<close>

definition slot_index :: "'a WindowEntry_scheme list \<Rightarrow> uint16 \<Rightarrow> nat" where
  "slot_index w seq = unat seq mod length w"

text \<open>Modelled from the spec: a write through the "mutable handle" that \<open>Find\<close> and
  \<open>InsertFast\<close> of the missing class \<open>SlidingWindow\<close> return, which points to the slot of
  \<open>seq\<close>.\<close>

definition Store :: "'a WindowEntry_scheme list \<Rightarrow> uint16 \<Rightarrow> 'a WindowEntry_scheme \<Rightarrow> 'a WindowEntry_scheme list" where
  "Store w seq e = w[slot_index w seq := e]"

text \<open>Modelled from the spec: \<open>SlidingWindow::HasSlotAvailable\<close>, which is missing.
  "\<open>HasSlotAvailable(seq)\<close>: true iff \<open>!slot.valid || seq - slot.seq \<ge> N\<close> modulo 2^16."\<close>

definition HasSlotAvailable :: "'a WindowEntry_scheme list \<Rightarrow> uint16 \<Rightarrow> bool" where
  "HasSlotAvailable w seq =
     (let slot = w ! slot_index w seq
      in \<not> valid slot \<or> length w \<le> unat (seq - sequence slot))"

text \<open>Modelled from the spec: \<open>SlidingWindow::Insert\<close>, which is missing.
  "\<open>Insert(seq, v)\<close>: if \<open>HasSlotAvailable(seq)\<close>, writes slot and returns success; else
  failure without mutation." The source passes the entry, which holds \<open>seq\<close>.\<close>

definition Insert :: "'a WindowEntry_scheme list \<Rightarrow> 'a WindowEntry_scheme \<Rightarrow> bool \<times> 'a WindowEntry_scheme list" where
  "Insert w e =
     (if HasSlotAvailable w (sequence e) then (True, Store w (sequence e) e) else (False, w))"

text \<open>Modelled from the spec: \<open>SlidingWindow::InsertFast\<close>, which is missing.
  "\<open>InsertFast(seq)\<close>: unconditionally writes a fresh entry at \<open>seq mod N\<close> and returns a
  mutable handle." The caller's writes through the handle are the fields of \<open>fresh\<close>.\<close>

definition InsertFast :: "'a WindowEntry_scheme list \<Rightarrow> uint16 \<Rightarrow> 'a WindowEntry_scheme \<Rightarrow> 'a WindowEntry_scheme list" where
  "InsertFast w seq fresh = Store w seq (fresh\<lparr>sequence := seq, valid := True\<rparr>)"

text \<open>Modelled from the spec: \<open>SlidingWindow::Find\<close>, which is missing. "\<open>Find(seq)\<close>:
  returns handle iff slot is valid and its stored sequence equals \<open>seq\<close>; otherwise null."\<close>

definition Find :: "'a WindowEntry_scheme list \<Rightarrow> uint16 \<Rightarrow> 'a WindowEntry_scheme option" where
  "Find w seq =
     (let slot = w ! slot_index w seq
      in if valid slot \<and> sequence slot = seq then Some slot else None)"

section \<open>Floating-point numbers\<close>

text \<open>
  The times of the message channel are \<open>double\<close> and its resend rate is a \<open>float\<close>: IEEE 754
  binary64 and binary32. A finite value of these types is a real number here. The sources
  copy and compare times, which is exact, and \<open>GetData\<close> converts the resend rate to
  \<open>double\<close>, which is exact as well. Two operations round: the literal \<open>0.1f\<close> of the
  configuration is the \<open>float\<close> nearest to 1/10, and the sum
  \<open>entry->timeLastSent + m_config.resendRate\<close> in \<open>GetData\<close> is the exact sum rounded to the
  nearest \<open>double\<close>, a tie going to the neighbour with the even significand. The sum is
  taken to be evaluated in double precision (\<open>FLT_EVAL_METHOD\<close> 0, as on x86-64 with SSE2
  and on ARM64).

  Infinities and NaN are not values of the model. A sum beyond the largest \<open>double\<close> is
  infinite in the source; here it rounds to a real number of at least \<open>2 ^ 1024\<close>, which
  compares with every finite \<open>double\<close> as the infinity does.
\<close>

text \<open>The position of the leading binary digit of a positive real number, \<open>\<lfloor>log\<^sub>2 x\<rfloor>\<close>,
  computed with integers.\<close>

definition ilog2 :: "real \<Rightarrow> int" where
  "ilog2 x = (if 1 \<le> x then bitlen \<lfloor>x\<rfloor> - 1 else - bitlen (\<lceil>1 / x\<rceil> - 1))"

text \<open>The nearest integer, a tie going to the even one.\<close>

definition round_even :: "real \<Rightarrow> int" where
  "round_even x =
     (let n = \<lfloor>x\<rfloor>; d = x - of_int n
      in if d < 1 / 2 then n else if 1 / 2 < d then n + 1 else if even n then n else n + 1)"

text \<open>A binary format has \<open>p\<close> digits of precision, and \<open>2 powi emin\<close> is its least
  positive number. \<open>ulp_exp\<close> is the exponent of the unit in the last place for numbers of
  the size of \<open>x\<close>: neighbouring numbers of the format differ by \<open>2 powi ulp_exp p emin x\<close>
  there. \<open>ieee_round\<close> rounds to the nearest number of the format (round to nearest, ties
  to even, the default rounding mode).\<close>

definition ulp_exp :: "int \<Rightarrow> int \<Rightarrow> real \<Rightarrow> int" where
  "ulp_exp p emin x = max (ilog2 \<bar>x\<bar> - (p - 1)) emin"

definition ieee_round :: "int \<Rightarrow> int \<Rightarrow> real \<Rightarrow> real" where
  "ieee_round p emin x =
     (if x = 0 then 0
      else of_int (round_even (x / 2 powi ulp_exp p emin x)) * 2 powi ulp_exp p emin x)"

text \<open>\<open>double\<close> has 53 digits and the least positive number \<open>2 powi - 1074\<close>, \<open>float\<close> has 24
  digits and the least positive number \<open>2 powi - 149\<close>.\<close>

definition double_round :: "real \<Rightarrow> real" where
  "double_round = ieee_round 53 (- 1074)"

definition float_round :: "real \<Rightarrow> real" where
  "float_round = ieee_round 24 (- 149)"

definition is_double :: "real \<Rightarrow> bool" where
  "is_double x \<longleftrightarrow> double_round x = x \<and> \<bar>x\<bar> < 2 ^ 1024"

text \<open>The operator \<open>+\<close> of two \<open>double\<close>s.\<close>

definition double_add :: "real \<Rightarrow> real \<Rightarrow> real" where
  "double_add x y = double_round (x + y)"

section \<open>ReliableMessageChannel (src/include/ReliableMessageChannel.h)\<close>

text \<open>
  A \<open>Message\<close> is an object with a type, a 16-bit id that \<open>SetId\<close> writes, and a
  \<open>Serialize\<close> method; \<open>msg_bits\<close> is the number of bits that \<open>Serialize\<close> writes to a
  stream (what \<open>stream.GetBits()\<close> returns after it), \<open>msg_body\<close> the rest of the object.
  A \<open>shared_ptr\<close> to a message is the message, \<open>nullptr\<close> is \<open>None\<close>.

  Times are \<open>double\<close> and \<open>resendRate\<close> is a \<open>float\<close> in the source: real numbers, with
  the rounding of the section on floating-point numbers where the source computes with
  them. The \<open>int\<close>s of the configuration are integers. The factory of the
  configuration is used for \<open>GetMaxType()\<close> only, which is the field \<open>maxType\<close>.
\<close>

record Message =
  msg_type :: int
  msg_id :: uint16
  msg_bits :: nat
  msg_body :: "8 word list"

record ReliableMessageChannelConfig =
  resendRate :: real
  sendQueueSize :: int
  receiveQueueSize :: int
  sentPacketsSize :: int
  maxMessagesPerPacket :: int
  maxMessageSize :: int
  maxSmallBlockSize :: int
  packetBudget :: int
  giveUpBits :: int
  maxType :: int

text \<open>The constructor of \<open>ReliableMessageChannelConfig\<close>; the factory has to be supplied by
  the caller, here as its greatest type. The resend rate is the literal \<open>0.1f\<close>.\<close>

definition ReliableMessageChannelConfig_new :: "int \<Rightarrow> ReliableMessageChannelConfig" where
  "ReliableMessageChannelConfig_new maxType' =
     \<lparr>resendRate = float_round (1 / 10), sendQueueSize = 1024, receiveQueueSize = 256, sentPacketsSize = 256,
      maxMessagesPerPacket = 32, maxMessageSize = 64, maxSmallBlockSize = 64, packetBudget = 128,
      giveUpBits = 64, maxType = maxType'\<rparr>"

text \<open>The entries. \<open>measuredBits\<close> is a bit-field of 15 bits: an assignment to it keeps the
  low 15 bits. The field \<open>message\<close> of a \<open>ReceiveQueueEntry\<close> is called \<open>received\<close> here,
  since two records cannot share a field name. The default constructors set \<open>valid\<close> to 0
  and leave the other scalars uninitialised; here they are 0.\<close>

record SendQueueEntry = WindowEntry +
  message :: "Message option"
  measuredBits :: "15 word"
  timeLastSent :: real

record SentPacketEntry = WindowEntry +
  acked :: bool
  timeSent :: real
  messageIds :: "uint16 list"

record ReceiveQueueEntry = WindowEntry +
  received :: "Message option"
  timeReceived :: real

definition SendQueueEntry_empty :: SendQueueEntry where
  "SendQueueEntry_empty =
     \<lparr>sequence = 0, valid = False, message = None, measuredBits = 0, timeLastSent = 0\<rparr>"

definition SendQueueEntry_new :: "Message \<Rightarrow> uint16 \<Rightarrow> SendQueueEntry" where
  "SendQueueEntry_new m seq =
     \<lparr>sequence = seq, valid = True, message = Some m, measuredBits = 0, timeLastSent = - 1\<rparr>"

definition SentPacketEntry_empty :: SentPacketEntry where
  "SentPacketEntry_empty =
     \<lparr>sequence = 0, valid = False, acked = False, timeSent = 0, messageIds = []\<rparr>"

definition ReceiveQueueEntry_empty :: ReceiveQueueEntry where
  "ReceiveQueueEntry_empty =
     \<lparr>sequence = 0, valid = False, received = None, timeReceived = 0\<rparr>"

definition ReceiveQueueEntry_new :: "Message \<Rightarrow> uint16 \<Rightarrow> real \<Rightarrow> ReceiveQueueEntry" where
  "ReceiveQueueEntry_new m seq t =
     \<lparr>sequence = seq, valid = True, received = Some m, timeReceived = t\<rparr>"

text \<open>The counters are a vector of \<open>uint64_t\<close> indexed by the enumeration \<open>Counters\<close>.\<close>

record Counters =
  MessagesSent :: "64 word"
  MessagesWritten :: "64 word"
  MessagesRead :: "64 word"
  MessagesReceived :: "64 word"
  MessagesDiscardedLate :: "64 word"
  MessagesDiscardedEarly :: "64 word"

text \<open>The channel. The configuration \<open>m_config\<close> never changes and is an argument of the
  operations; \<open>m_timeBase\<close> is the field \<open>time\<close> of the \<open>TimeBase\<close>; \<open>m_measureBuffer\<close> is
  a buffer that only \<open>SendMessage\<close> uses, for measuring, and is left out.\<close>

record ReliableMessageChannel =
  m_timeBase :: real
  m_sendMessageId :: uint16
  m_receiveMessageId :: uint16
  m_sendQueue :: "SendQueueEntry list"
  m_sentPackets :: "SentPacketEntry list"
  m_receiveQueue :: "ReceiveQueueEntry list"
  m_counters :: Counters
  m_messageOverheadBits :: int

text \<open>The two exceptions (\<open>runtime_error\<close>) that the channel throws. An operation that
  throws returns the exception together with the state it leaves behind.\<close>

datatype exception = QueueOverflow | EarlyMessage

text \<open>Modelled from the spec: the number of binary digits of a natural number, by which
  the missing \<open>bits_required\<close> is computed.\<close>

fun binary_digits :: "nat \<Rightarrow> nat" where
  "binary_digits n = (if n = 0 then 0 else Suc (binary_digits (n div 2)))"

text \<open>Modelled from the spec: \<open>bits_required\<close>, which is missing. For the range from 0 to
  \<open>max_type\<close> the spec gives \<open>ceil(log2(max_type+1))\<close> bits: the number of binary digits
  of \<open>max - min\<close>.\<close>

definition bits_required :: "int \<Rightarrow> int \<Rightarrow> int" where
  "bits_required lo hi = int (binary_digits (nat (hi - lo)))"

text \<open>The constructor. \<open>MaxSmallBlockSize\<close> is a constant of a missing header and an
  argument here; the time base starts at 0.\<close>

definition ReliableMessageChannel_new ::
  "int \<Rightarrow> ReliableMessageChannelConfig \<Rightarrow> failure + ReliableMessageChannel" where
  "ReliableMessageChannel_new MaxSmallBlockSize config =
     (if \<not> maxSmallBlockSize config \<le> MaxSmallBlockSize then Inl AssertionFailed
      else
        let MessageIdBits = 16;
            MessageTypeBits = bits_required 0 (maxType config)
        in Inr \<lparr>m_timeBase = 0, m_sendMessageId = 0, m_receiveMessageId = 0,
                m_sendQueue = SlidingWindow_new (sendQueueSize config) SendQueueEntry_empty,
                m_sentPackets = SlidingWindow_new (sentPacketsSize config) SentPacketEntry_empty,
                m_receiveQueue = SlidingWindow_new (receiveQueueSize config) ReceiveQueueEntry_empty,
                m_counters = \<lparr>MessagesSent = 0, MessagesWritten = 0, MessagesRead = 0,
                              MessagesReceived = 0, MessagesDiscardedLate = 0,
                              MessagesDiscardedEarly = 0\<rparr>,
                m_messageOverheadBits = MessageIdBits + MessageTypeBits\<rparr>)"

definition CanSendMessage :: "ReliableMessageChannel \<Rightarrow> bool" where
  "CanSendMessage s = HasSlotAvailable (m_sendQueue s) (m_sendMessageId s)"

text \<open>\<open>SendMessage\<close>. The message object gets the id (\<open>SetId\<close>) before it is stored. The
  assertions between \<open>#ifndef NDEBUG\<close> and \<open>#endif\<close> are kept: \<open>entry\<close> is declared
  there and written two lines further down.\<close>

definition SendMessage ::
  "Message \<Rightarrow> ReliableMessageChannel \<Rightarrow> failure + (exception option \<times> ReliableMessageChannel)" where
  "SendMessage msg s =
     (if \<not> HasSlotAvailable (m_sendQueue s) (m_sendMessageId s) then Inr (Some QueueOverflow, s)
      else
        let msg' = msg\<lparr>msg_id := m_sendMessageId s\<rparr>;
            (result, q) = Insert (m_sendQueue s) (SendQueueEntry_new msg' (m_sendMessageId s))
        in
        if \<not> result then Inl AssertionFailed
        else
          case Find q (m_sendMessageId s) of
            None \<Rightarrow> Inl AssertionFailed
          | Some entry \<Rightarrow>
              if \<not> valid entry then Inl AssertionFailed
              else if \<not> sequence entry = m_sendMessageId s then Inl AssertionFailed
              else
                (case message entry of
                   None \<Rightarrow> Inl AssertionFailed
                 | Some m \<Rightarrow>
                     if \<not> msg_id m = m_sendMessageId s then Inl AssertionFailed
                     else
                       let entry' = entry\<lparr>measuredBits :=
                                      word_of_int (int (msg_bits msg') + m_messageOverheadBits s)\<rparr>;
                           c = m_counters s
                       in Inr (None,
                               s\<lparr>m_sendQueue := Store q (m_sendMessageId s) entry',
                                 m_counters := c\<lparr>MessagesSent := MessagesSent c + 1\<rparr>,
                                 m_sendMessageId := m_sendMessageId s + 1\<rparr>)))"

definition ReceiveMessage ::
  "ReliableMessageChannel \<Rightarrow> failure + (Message option \<times> ReliableMessageChannel)" where
  "ReceiveMessage s =
     (case Find (m_receiveQueue s) (m_receiveMessageId s) of
        None \<Rightarrow> Inr (None, s)
      | Some entry \<Rightarrow>
          (case received entry of
             None \<Rightarrow> Inl AssertionFailed
           | Some msg \<Rightarrow>
               if \<not> msg_id msg = m_receiveMessageId s then Inl AssertionFailed
               else
                 let c = m_counters s
                 in Inr (Some msg,
                         s\<lparr>m_receiveQueue := Store (m_receiveQueue s) (m_receiveMessageId s)
                                               (entry\<lparr>valid := False, received := None\<rparr>),
                           m_counters := c\<lparr>MessagesReceived := MessagesReceived c + 1\<rparr>,
                           m_receiveMessageId := m_receiveMessageId s + 1\<rparr>)))"

text \<open>\<open>GetData\<close>, first loop: the oldest message id in the send queue, over
  \<open>i = 0, ..., sendQueueSize - 1\<close>.\<close>

fun find_oldest :: "SendQueueEntry list \<Rightarrow> uint16 \<Rightarrow> nat list \<Rightarrow> bool \<times> uint16 \<Rightarrow> bool \<times> uint16" where
  "find_oldest q baseId [] st = st"
| "find_oldest q baseId (i # rest) (foundMessage, oldestMessageId) =
     (let messageId = baseId + of_nat i in
      case Find q messageId of
        Some entry \<Rightarrow>
          if \<not> foundMessage \<or> sequence_less_than messageId oldestMessageId
          then find_oldest q baseId rest (True, messageId)
          else find_oldest q baseId rest (foundMessage, oldestMessageId)
      | None \<Rightarrow> find_oldest q baseId rest (foundMessage, oldestMessageId))"

text \<open>\<open>GetData\<close>, second loop. The state of the loop is \<open>availableBits\<close>, the part \<open>ids\<close>
  of the array \<open>messageIds\<close> filled so far (\<open>numMessageIds\<close> is its length) and the
  send queue.
  \<open>gather_step\<close> is the \<open>if\<close> in the middle of the body: the array has
  \<open>maxMessagesPerPacket\<close> elements, and a write behind its end is \<open>OutOfBounds\<close>.
  \<open>measuredBits\<close> is promoted to \<open>int\<close> in the subtraction, and \<open>resendRate\<close> to \<open>double\<close>
  in the sum, which is rounded before it is compared with the time.\<close>

definition gather_step ::
  "ReliableMessageChannelConfig \<Rightarrow> real \<Rightarrow> uint16 \<Rightarrow> int \<times> uint16 list \<times> SendQueueEntry list \<Rightarrow>
   failure + (int \<times> uint16 list \<times> SendQueueEntry list)" where
  "gather_step cfg now messageId st =
     (case st of (availableBits, ids, q) \<Rightarrow>
       (case Find q messageId of
          Some entry \<Rightarrow>
            if double_add (timeLastSent entry) (resendRate cfg) \<le> now
               \<and> availableBits - uint (measuredBits entry) \<ge> 0
            then
              if \<not> int (length ids) < maxMessagesPerPacket cfg then Inl OutOfBounds
              else Inr (availableBits - uint (measuredBits entry), ids @ [messageId],
                        Store q messageId (entry\<lparr>timeLastSent := now\<rparr>))
            else Inr st
        | None \<Rightarrow> Inr st))"

fun gather ::
  "ReliableMessageChannelConfig \<Rightarrow> real \<Rightarrow> uint16 \<Rightarrow> nat list \<Rightarrow>
   int \<times> uint16 list \<times> SendQueueEntry list \<Rightarrow> failure + (int \<times> uint16 list \<times> SendQueueEntry list)" where
  "gather cfg now oldestMessageId [] st = Inr st"
| "gather cfg now oldestMessageId (i # rest) st =
     (if fst st < giveUpBits cfg then Inr st
      else
        case gather_step cfg now (oldestMessageId + of_nat i) st of
          Inl f \<Rightarrow> Inl f
        | Inr st' \<Rightarrow>
            if int (length (fst (snd st'))) = maxMessagesPerPacket cfg then Inr st'
            else gather cfg now oldestMessageId rest st')"

text \<open>\<open>GetData\<close>, last loop: the messages of the ids, with its two assertions.\<close>

fun collect_messages :: "SendQueueEntry list \<Rightarrow> uint16 list \<Rightarrow> failure + Message list" where
  "collect_messages q [] = Inr []"
| "collect_messages q (messageId # ids) =
     (case Find q messageId of
        None \<Rightarrow> Inl AssertionFailed
      | Some entry \<Rightarrow>
          (case message entry of
             None \<Rightarrow> Inl AssertionFailed
           | Some m \<Rightarrow>
               (case collect_messages q ids of
                  Inl f \<Rightarrow> Inl f
                | Inr ms \<Rightarrow> Inr (m # ms))))"

definition GetData ::
  "ReliableMessageChannelConfig \<Rightarrow> uint16 \<Rightarrow> ReliableMessageChannel \<Rightarrow>
   failure + (Message list option \<times> ReliableMessageChannel)" where
  "GetData cfg seq s =
     (let baseId = m_sendMessageId s - word_of_int (sendQueueSize cfg);
          (foundMessage, oldestMessageId) =
             find_oldest (m_sendQueue s) baseId [0 ..< nat (sendQueueSize cfg)] (False, 0)
      in
      if \<not> foundMessage then Inr (None, s)
      else
        case gather cfg (m_timeBase s) oldestMessageId [0 ..< nat (receiveQueueSize cfg)]
               (packetBudget cfg * 8, [], m_sendQueue s) of
          Inl f \<Rightarrow> Inl f
        | Inr (availableBits, ids, q) \<Rightarrow>
            if \<not> int (length ids) \<le> maxMessagesPerPacket cfg then Inl AssertionFailed
            else if ids = [] then Inr (None, s\<lparr>m_sendQueue := q\<rparr>)
            else
              let sentPackets = InsertFast (m_sentPackets s) seq
                                  (SentPacketEntry_empty\<lparr>acked := False, timeSent := m_timeBase s,
                                                          messageIds := ids\<rparr>);
                  c = m_counters s;
                  c' = c\<lparr>MessagesWritten := MessagesWritten c + word_of_nat (length ids)\<rparr>
              in
              case collect_messages q ids of
                Inl f \<Rightarrow> Inl f
              | Inr messages \<Rightarrow>
                  Inr (Some messages,
                       s\<lparr>m_sendQueue := q, m_sentPackets := sentPackets, m_counters := c'\<rparr>))"

text \<open>\<open>ProcessData\<close>: the body of the loop for one message, and the loop. The loop carries
  the flag \<open>earlyMessage\<close> and the channel.\<close>

definition process_message ::
  "uint16 \<Rightarrow> uint16 \<Rightarrow> Message \<Rightarrow> bool \<times> ReliableMessageChannel \<Rightarrow>
   failure + (bool \<times> ReliableMessageChannel)" where
  "process_message minMessageId maxMessageId msg st =
     (case st of (earlyMessage, s) \<Rightarrow>
       let messageId = msg_id msg;
           c = m_counters s
       in
       if sequence_less_than messageId minMessageId then
         Inr (earlyMessage,
              s\<lparr>m_counters := c\<lparr>MessagesDiscardedLate := MessagesDiscardedLate c + 1,
                                MessagesRead := MessagesRead c + 1\<rparr>\<rparr>)
       else if sequence_greater_than messageId maxMessageId then
         Inr (True,
              s\<lparr>m_counters := c\<lparr>MessagesDiscardedEarly := MessagesDiscardedEarly c + 1,
                                MessagesRead := MessagesRead c + 1\<rparr>\<rparr>)
       else
         let (result, q) = Insert (m_receiveQueue s)
                             (ReceiveQueueEntry_new msg messageId (m_timeBase s))
         in
         if \<not> result then Inl AssertionFailed
         else Inr (earlyMessage,
                   s\<lparr>m_receiveQueue := q,
                     m_counters := c\<lparr>MessagesRead := MessagesRead c + 1\<rparr>\<rparr>))"

fun process_messages ::
  "uint16 \<Rightarrow> uint16 \<Rightarrow> Message list \<Rightarrow> bool \<times> ReliableMessageChannel \<Rightarrow>
   failure + (bool \<times> ReliableMessageChannel)" where
  "process_messages minMessageId maxMessageId [] st = Inr st"
| "process_messages minMessageId maxMessageId (msg # msgs) st =
     (case process_message minMessageId maxMessageId msg st of
        Inl f \<Rightarrow> Inl f
      | Inr st' \<Rightarrow> process_messages minMessageId maxMessageId msgs st')"

definition ProcessData ::
  "ReliableMessageChannelConfig \<Rightarrow> uint16 \<Rightarrow> Message list \<Rightarrow> ReliableMessageChannel \<Rightarrow>
   failure + (exception option \<times> ReliableMessageChannel)" where
  "ProcessData cfg seq messages s =
     (let minMessageId = m_receiveMessageId s;
          maxMessageId = m_receiveMessageId s + word_of_int (receiveQueueSize cfg) - 1
      in
      case process_messages minMessageId maxMessageId messages (False, s) of
        Inl f \<Rightarrow> Inl f
      | Inr (earlyMessage, s') \<Rightarrow>
          if earlyMessage then Inr (Some EarlyMessage, s') else Inr (None, s'))"

text \<open>\<open>ProcessAck\<close>: the loop over the message ids of the packet, and the operation.\<close>

fun ack_messages :: "uint16 list \<Rightarrow> SendQueueEntry list \<Rightarrow> failure + SendQueueEntry list" where
  "ack_messages [] q = Inr q"
| "ack_messages (messageId # ids) q =
     (case Find q messageId of
        None \<Rightarrow> ack_messages ids q
      | Some sendQueueEntry \<Rightarrow>
          (case message sendQueueEntry of
             None \<Rightarrow> Inl AssertionFailed
           | Some m \<Rightarrow>
               if \<not> msg_id m = messageId then Inl AssertionFailed
               else ack_messages ids
                      (Store q messageId (sendQueueEntry\<lparr>valid := False, message := None\<rparr>))))"

definition ProcessAck :: "uint16 \<Rightarrow> ReliableMessageChannel \<Rightarrow> failure + ReliableMessageChannel" where
  "ProcessAck ack s =
     (case Find (m_sentPackets s) ack of
        None \<Rightarrow> Inr s
      | Some sentPacket \<Rightarrow>
          if acked sentPacket then Inr s
          else
            case ack_messages (messageIds sentPacket) (m_sendQueue s) of
              Inl f \<Rightarrow> Inl f
            | Inr q \<Rightarrow>
                Inr (s\<lparr>m_sendQueue := q,
                       m_sentPackets := Store (m_sentPackets s) ack (sentPacket\<lparr>acked := True\<rparr>)\<rparr>))"

definition Update :: "real \<Rightarrow> ReliableMessageChannel \<Rightarrow> ReliableMessageChannel" where
  "Update time s = s\<lparr>m_timeBase := time\<rparr>"

text \<open>Sequences of operations of the host on one channel. Every operation leaves one
  event: what it returned or threw. A failure ends the program.\<close>

datatype operation =
  DoSendMessage Message
| DoReceiveMessage
| DoGetData uint16
| DoProcessData uint16 "Message list"
| DoProcessAck uint16
| DoUpdate real

datatype event =
  Sent uint16
| Threw exception
| Delivered Message
| NoMessage
| Packet real "Message list"
| NoData
| DataProcessed
| AckProcessed
| TimeUpdated

fun step ::
  "ReliableMessageChannelConfig \<Rightarrow> operation \<Rightarrow> ReliableMessageChannel \<Rightarrow>
   failure + (event \<times> ReliableMessageChannel)" where
  "step cfg (DoSendMessage msg) s =
     (case SendMessage msg s of
        Inl f \<Rightarrow> Inl f
      | Inr (Some e, s') \<Rightarrow> Inr (Threw e, s')
      | Inr (None, s') \<Rightarrow> Inr (Sent (m_sendMessageId s), s'))"
| "step cfg DoReceiveMessage s =
     (case ReceiveMessage s of
        Inl f \<Rightarrow> Inl f
      | Inr (Some msg, s') \<Rightarrow> Inr (Delivered msg, s')
      | Inr (None, s') \<Rightarrow> Inr (NoMessage, s'))"
| "step cfg (DoGetData seq) s =
     (case GetData cfg seq s of
        Inl f \<Rightarrow> Inl f
      | Inr (Some msgs, s') \<Rightarrow> Inr (Packet (m_timeBase s) msgs, s')
      | Inr (None, s') \<Rightarrow> Inr (NoData, s'))"
| "step cfg (DoProcessData seq msgs) s =
     (case ProcessData cfg seq msgs s of
        Inl f \<Rightarrow> Inl f
      | Inr (Some e, s') \<Rightarrow> Inr (Threw e, s')
      | Inr (None, s') \<Rightarrow> Inr (DataProcessed, s'))"
| "step cfg (DoProcessAck ack) s =
     (case ProcessAck ack s of
        Inl f \<Rightarrow> Inl f
      | Inr s' \<Rightarrow> Inr (AckProcessed, s'))"
| "step cfg (DoUpdate time) s = Inr (TimeUpdated, Update time s)"

fun run ::
  "ReliableMessageChannelConfig \<Rightarrow> operation list \<Rightarrow> ReliableMessageChannel \<Rightarrow>
   failure + (event list \<times> ReliableMessageChannel)" where
  "run cfg [] s = Inr ([], s)"
| "run cfg (x # xs) s =
     (case step cfg x s of
        Inl f \<Rightarrow> Inl f
      | Inr (e, s') \<Rightarrow>
          (case run cfg xs s' of
             Inl f \<Rightarrow> Inl f
           | Inr (es, s'') \<Rightarrow> Inr (e # es, s'')))"

fun delivered :: "event list \<Rightarrow> Message list" where
  "delivered [] = []"
| "delivered (Delivered msg # es) = msg # delivered es"
| "delivered (e # es) = delivered es"

text \<open>Invariants of the queues: a valid entry holds a message, and the id of the message is
  the sequence number of the entry.\<close>

definition recvq_ok :: "ReceiveQueueEntry list \<Rightarrow> bool" where
  "recvq_ok q \<longleftrightarrow> 0 < length q \<and> (\<forall>e \<in> set q. valid e \<longrightarrow> (\<exists>m. received e = Some m \<and> msg_id m = sequence e))"

definition sendq_ok :: "SendQueueEntry list \<Rightarrow> bool" where
  "sendq_ok q \<longleftrightarrow> 0 < length q \<and> (\<forall>e \<in> set q. valid e \<longrightarrow> (\<exists>m. message e = Some m \<and> msg_id m = sequence e))"

text \<open>A small configuration, a message and the channel that the constructor builds for
  the configuration, for concrete runs.\<close>

definition example_config :: ReliableMessageChannelConfig where
  "example_config = \<lparr>resendRate = 1, sendQueueSize = 2, receiveQueueSize = 2, sentPacketsSize = 2,
      maxMessagesPerPacket = 2, maxMessageSize = 64, maxSmallBlockSize = 64, packetBudget = 16,
      giveUpBits = 8, maxType = 3\<rparr>"

definition example_message :: "uint16 \<Rightarrow> Message" where
  "example_message i = \<lparr>msg_type = 1, msg_id = i, msg_bits = 40, msg_body = []\<rparr>"

definition example_channel :: ReliableMessageChannel where
  "example_channel =
     \<lparr>m_timeBase = 0, m_sendMessageId = 0, m_receiveMessageId = 0,
      m_sendQueue = [SendQueueEntry_empty, SendQueueEntry_empty],
      m_sentPackets = [SentPacketEntry_empty, SentPacketEntry_empty],
      m_receiveQueue = [ReceiveQueueEntry_empty, ReceiveQueueEntry_empty],
      m_counters = \<lparr>MessagesSent = 0, MessagesWritten = 0, MessagesRead = 0,
                    MessagesReceived = 0, MessagesDiscardedLate = 0,
                    MessagesDiscardedEarly = 0\<rparr>,
      m_messageOverheadBits = 18\<rparr>"

text \<open>The small configuration with the resend rate of the default configuration,
  \<open>0.1f\<close>.\<close>

definition example_config_tenth :: ReliableMessageChannelConfig where
  "example_config_tenth = example_config\<lparr>resendRate := float_round (1 / 10)\<rparr>"

text \<open>What the second loop of \<open>GetData\<close> does to the send queue \<open>q\<close> when it selects the ids
  \<open>new\<close> at time \<open>now\<close> with \<open>a\<close> bits available, leaving the queue \<open>q'\<close> and \<open>a'\<close> bits.\<close>

definition gathered ::
  "ReliableMessageChannelConfig \<Rightarrow> real \<Rightarrow> SendQueueEntry list \<Rightarrow> uint16 list \<Rightarrow>
   SendQueueEntry list \<Rightarrow> int \<Rightarrow> int \<Rightarrow> bool" where
  "gathered cfg now q new q' a a' \<longleftrightarrow>
     length q' = length q \<and>
     (\<forall>k < length q.
        q' ! k = q ! k \<or>
        (q' ! k = (q ! k)\<lparr>timeLastSent := now\<rparr> \<and> valid (q ! k) \<and> sequence (q ! k) \<in> set new \<and>
         slot_index q (sequence (q ! k)) = k)) \<and>
     (\<forall>mid \<in> set new. \<exists>e. Find q mid = Some e \<and> double_add (timeLastSent e) (resendRate cfg) \<le> now \<and>
        Find q' mid = Some (e\<lparr>timeLastSent := now\<rparr>)) \<and>
     a' + (\<Sum>mid \<leftarrow> new. uint (measuredBits (q ! slot_index q mid))) = a \<and>
     (new \<noteq> [] \<longrightarrow> 0 \<le> a')"

text \<open>What the loop of \<open>ProcessAck\<close> over the message ids \<open>ids\<close> does to the send queue: a
  slot either stays as it is, or it held one of the ids and is invalidated.\<close>

definition released :: "SendQueueEntry list \<Rightarrow> uint16 list \<Rightarrow> SendQueueEntry list \<Rightarrow> bool" where
  "released q ids q' \<longleftrightarrow>
     length q' = length q \<and>
     (\<forall>k < length q.
        q' ! k = q ! k \<or>
        (valid (q ! k) \<and> sequence (q ! k) \<in> set ids \<and>
         q' ! k = (q ! k)\<lparr>valid := False, message := None\<rparr>)) \<and>
     (\<forall>x \<in> set ids. Find q' x = None)"

text \<open>A message of 60 bits: with the overhead of 18 bits only one of them fits into the 128
  bits of a packet of \<open>example_config\<close>.\<close>

definition example_large_message :: "uint16 \<Rightarrow> Message" where
  "example_large_message i = \<lparr>msg_type = 1, msg_id = i, msg_bits = 60, msg_body = []\<rparr>"

text \<open>A channel with a send window of three slots after 65536 messages, of which the last
  is not acked: the message with the id 65535 is in slot 0, which is the slot of the next
  id 0 as well (65536 = 3 * 21845 + 1).\<close>

definition example_wrapped :: ReliableMessageChannel where
  "example_wrapped =
     example_channel
       \<lparr>m_sendQueue :=
          [(SendQueueEntry_new (example_message 65535) 65535)\<lparr>measuredBits := 58\<rparr>,
           SendQueueEntry_empty, SendQueueEntry_empty],
        m_counters := (m_counters example_channel)\<lparr>MessagesSent := 65536\<rparr>\<rparr>"

text \<open>The three branches of the loop of \<open>ProcessData\<close>, for the window from \<open>lo\<close> to
  \<open>hi\<close>: the first test decides before the second.\<close>

definition is_late :: "uint16 \<Rightarrow> Message \<Rightarrow> bool" where
  "is_late lo msg = sequence_less_than (msg_id msg) lo"

definition is_early :: "uint16 \<Rightarrow> uint16 \<Rightarrow> Message \<Rightarrow> bool" where
  "is_early lo hi msg = (\<not> is_late lo msg \<and> sequence_greater_than (msg_id msg) hi)"

definition in_window :: "uint16 \<Rightarrow> uint16 \<Rightarrow> Message \<Rightarrow> bool" where
  "in_window lo hi msg = (\<not> is_late lo msg \<and> \<not> sequence_greater_than (msg_id msg) hi)"

definition store_received :: "real \<Rightarrow> ReceiveQueueEntry list \<Rightarrow> Message \<Rightarrow> ReceiveQueueEntry list" where
  "store_received now q msg = Store q (msg_id msg) (ReceiveQueueEntry_new msg (msg_id msg) now)"

text \<open>The configuration and the new channel of scenario S4 of the spec: a receive window
  of four slots.\<close>

definition example_config4 :: ReliableMessageChannelConfig where
  "example_config4 = example_config\<lparr>receiveQueueSize := 4\<rparr>"

definition example_channel4 :: ReliableMessageChannel where
  "example_channel4 =
     example_channel\<lparr>m_receiveQueue := [ReceiveQueueEntry_empty, ReceiveQueueEntry_empty,
                                         ReceiveQueueEntry_empty, ReceiveQueueEntry_empty]\<rparr>"

chapter \<open>Properties\<close>

section \<open>DNS resolver: when callbacks run\<close>

lemma string_less_irrefl: "\<not> string_less x x"
  by (induction x) auto

lemma string_less_trans: "string_less x y \<Longrightarrow> string_less y z \<Longrightarrow> string_less x z"
proof (induction x y arbitrary: z rule: string_less.induct)
  case (4 x xs y ys)
  then show ?case by (cases z) auto
next
  case (2 y ys)
  then show ?case by (cases z) auto
qed auto

lemma string_less_total: "x \<noteq> y \<Longrightarrow> \<not> string_less x y \<Longrightarrow> string_less y x"
proof (induction x y rule: string_less.induct)
  case (4 x xs y ys)
  then show ?case by (auto simp: not_less le_less)
qed auto

lemma set_map_put: "set (map_put k v m) \<subseteq> insert (k, v) (set m)"
  by (induction m) (auto split: if_splits)

lemma map_put_other: "(k', v') \<in> set m \<Longrightarrow> k' \<noteq> k \<Longrightarrow> (k', v') \<in> set (map_put k v m)"
  by (induction m) auto

lemma map_put_mem: "(k, v) \<in> set (map_put k v m)"
  by (induction m) auto

lemma map_of_map_put: "map_of (map_put k v m) = (map_of m)(k \<mapsto> v)"
  by (induction m) (auto simp: fun_eq_iff)

lemma sorted_map_put:
  "sorted_wrt key_less m \<Longrightarrow> sorted_wrt key_less (map_put k v m)"
proof (induction m)
  case Nil
  then show ?case by simp
next
  case (Cons x m)
  obtain k' v' where x: "x = (k', v')" by (cases x)
  show ?case
  proof (cases "k = k'")
    case True
    with Cons.prems x show ?thesis by (auto simp: key_less_def)
  next
    case False
    show ?thesis
    proof (cases "string_less k k'")
      case True
      with Cons.prems x False show ?thesis
        by (auto simp: key_less_def intro: string_less_trans)
    next
      case nl: False
      from string_less_total[OF False nl] have "string_less k' k" .
      moreover from Cons have "sorted_wrt key_less (map_put k v m)" by simp
      moreover have "\<forall>y \<in> set (map_put k v m). key_less x y"
        using set_map_put[of k v m] Cons.prems x \<open>string_less k' k\<close> by (auto simp: key_less_def)
      ultimately show ?thesis using x False nl by simp
    qed
  qed
qed

lemma sorted_keys_unique:
  "sorted_wrt key_less m \<Longrightarrow> (k, v) \<in> set m \<Longrightarrow> (k, v') \<in> set m \<Longrightarrow> v = v'"
  by (induction m) (auto simp: key_less_def string_less_irrefl)


lemma calls_of_upd: "callbacks e = callbacks (h a) \<Longrightarrow> calls_of ready (h(a := e)) = calls_of ready h"
  by (auto simp: calls_of_def fun_eq_iff split: option.splits)

lemma Update_loop_calls_eq:
  "fst (Update_loop ready xs h) = concat (map (calls_of ready h) xs)"
proof (induction xs arbitrary: h)
  case Nil
  then show ?case by simp
next
  case (Cons x xs)
  obtain n a where x: "x = (n, a)" by (cases x)
  show ?case
  proof (cases "ready a")
    case None
    with Cons x show ?thesis by (simp add: split_beta calls_of_def)
  next
    case (Some res)
    have "calls_of ready (h(a := completed res (h a))) = calls_of ready h"
      by (rule calls_of_upd) (simp add: completed_def)
    with Cons.IH[of "h(a := completed res (h a))"]
    have "fst (Update_loop ready xs (h(a := completed res (h a))))
          = concat (map (calls_of ready h) xs)"
      by (simp only:)
    moreover have "calls_of ready h (n, a) = map (\<lambda>cb. (cb, n, res)) (callbacks (h a))"
      using Some by (simp add: calls_of_def)
    ultimately show ?thesis using Some x
      by (simp add: split_beta Let_def completed_def)
  qed
qed

lemma Update_loop_kept:
  "snd (snd (Update_loop ready xs h)) = filter (\<lambda>x. ready (snd x) = None) xs"
proof (induction xs arbitrary: h)
  case Nil
  then show ?case by simp
next
  case (Cons x xs)
  obtain n a where x: "x = (n, a)" by (cases x)
  from Cons x show ?case by (cases "ready a") (simp_all add: split_beta Let_def)
qed

lemma Update_loop_heap:
  "fst (snd (Update_loop ready xs h)) a =
     (case ready a of
        Some res \<Rightarrow> if a \<in> snd ` set xs then completed res (h a) else h a
      | None \<Rightarrow> h a)"
proof (induction xs arbitrary: h)
  case Nil
  then show ?case by (simp split: option.splits)
next
  case (Cons x xs)
  obtain n b where x: "x = (n, b)" by (cases x)
  show ?case
  proof (cases "ready b")
    case None
    with Cons x show ?thesis by (auto simp: split_beta split: option.splits)
  next
    case (Some res)
    have "fst (snd (Update_loop ready xs (h(b := completed res (h b))))) a =
      (case ready a of
        Some res' \<Rightarrow> if a \<in> snd ` set xs then completed res' ((h(b := completed res (h b))) a)
                     else (h(b := completed res (h b))) a
      | None \<Rightarrow> (h(b := completed res (h b))) a)"
      by (rule Cons.IH)
    with Some x show ?thesis
      by (auto simp: split_beta Let_def completed_def split: option.splits)
  qed
qed

lemma invocations_of_append [simp]:
  "invocations_of name (xs @ ys) = invocations_of name xs @ invocations_of name ys"
  by (simp add: invocations_of_def)

lemma invocations_of_calls_of:
  "invocations_of name (calls_of ready h (n, a)) = (if n = name then calls_of ready h (n, a) else [])"
  by (auto simp: invocations_of_def calls_of_def filter_empty_conv split: option.splits)

lemma invocations_of_absent:
  "name \<notin> fst ` set xs \<Longrightarrow> invocations_of name (concat (map (calls_of ready h) xs)) = []"
proof (induction xs)
  case Nil
  then show ?case by (simp add: invocations_of_def)
next
  case (Cons x xs)
  obtain n a where x: "x = (n, a)" by (cases x)
  with Cons show ?case by (auto simp: invocations_of_calls_of)
qed

lemma sorted_head_absent:
  "sorted_wrt key_less ((n, a) # xs) \<Longrightarrow> n \<notin> fst ` set xs"
  by (auto simp: key_less_def string_less_irrefl)

lemma invocations_of_Update_loop:
  assumes "sorted_wrt key_less xs" "(name, a) \<in> set xs"
  shows "invocations_of name (fst (Update_loop ready xs h)) = calls_of ready h (name, a)"
  unfolding Update_loop_calls_eq using assms
proof (induction xs)
  case Nil
  then show ?case by simp
next
  case (Cons x xs)
  obtain n b where x: "x = (n, b)" by (cases x)
  show ?case
  proof (cases "n = name")
    case True
    from Cons.prems(1) x have abs: "n \<notin> fst ` set xs" by (intro sorted_head_absent[of n b]) simp
    with True Cons.prems(2) x have "b = a" by force
    with True x abs show ?thesis
      by (simp add: invocations_of_calls_of invocations_of_absent)
  next
    case False
    with Cons x show ?thesis by (simp add: invocations_of_calls_of)
  qed
qed

lemma invocations_of_Update_loop_none:
  assumes "sorted_wrt key_less xs" "(name, a) \<in> set xs" "ready a = None"
  shows "invocations_of name (fst (Update_loop ready xs h)) = []"
  using invocations_of_Update_loop[OF assms(1,2), of ready h] assms(3) by (simp add: calls_of_def)


lemma Update_DNS_simps:
  "fst (Update_DNS ready r) = fst (Update_loop ready (in_progress r) (heap r))"
  "heap (snd (Update_DNS ready r)) = fst (snd (Update_loop ready (in_progress r) (heap r)))"
  "in_progress (snd (Update_DNS ready r)) = filter (\<lambda>x. ready (snd x) = None) (in_progress r)"
  "map_tbl (snd (Update_DNS ready r)) = map_tbl r"
  "next_entry (snd (Update_DNS ready r)) = next_entry r"
  by (simp_all add: Update_DNS_def split_beta Update_loop_kept)

lemma DNS_ok_init: "DNS_ok DNSResolver_init"
  by (simp add: DNS_ok_def DNSResolver_init_def)

lemma DNS_ok_Clear: "DNS_ok r \<Longrightarrow> DNS_ok (Clear_DNS r)"
  by (simp add: DNS_ok_def Clear_DNS_def)

lemma DNS_ok_Update:
  assumes "DNS_ok r"
  shows "DNS_ok (snd (Update_DNS ready r))"
proof -
  let ?r = "snd (Update_DNS ready r)"
  have h: "heap ?r a = heap r a" if "ready a = None" for a
    using that by (simp add: Update_DNS_simps Update_loop_heap)
  have st: "status (heap ?r a) = RESOLVE_IN_PROGRESS \<Longrightarrow> status (heap r a) = RESOLVE_IN_PROGRESS \<and> (a \<in> snd ` set (in_progress r) \<longrightarrow> ready a = None)" for a
    by (auto simp: Update_DNS_simps Update_loop_heap completed_def split: option.splits if_splits)
  from assms have 1: "sorted_wrt key_less (in_progress ?r)"
    by (simp add: DNS_ok_def Update_DNS_simps sorted_wrt_filter)
  from assms have 2: "distinct (map snd (in_progress ?r))"
    by (simp add: DNS_ok_def Update_DNS_simps distinct_map_filter)
  from assms have 3: "\<forall>(n, a) \<in> set (in_progress ?r). a < next_entry ?r \<and> status (heap ?r a) = RESOLVE_IN_PROGRESS"
    by (auto simp: DNS_ok_def Update_DNS_simps Update_loop_heap)
  from assms have 4: "\<forall>(n, a) \<in> set (map_tbl ?r). a < next_entry ?r"
    by (auto simp: DNS_ok_def Update_DNS_simps)
  have 5: "(n, a) \<in> set (in_progress ?r)"
    if "map_of (map_tbl ?r) n = Some a \<and> status (heap ?r a) = RESOLVE_IN_PROGRESS" for n a
  proof -
    from that st[of a] have "map_of (map_tbl r) n = Some a" "status (heap r a) = RESOLVE_IN_PROGRESS"
      by (simp_all add: Update_DNS_simps)
    with assms have m: "(n, a) \<in> set (in_progress r)" by (simp add: DNS_ok_def)
    then have "a \<in> snd ` set (in_progress r)" by force
    with that st[of a] have "ready a = None" by simp
    with m show ?thesis by (simp add: Update_DNS_simps)
  qed
  from 1 2 3 4 5 show ?thesis unfolding DNS_ok_def by blast
qed

lemma distinct_snd_map_put:
  assumes "distinct (map snd m)" "v \<notin> snd ` set m"
  shows "distinct (map snd (map_put k v m))"
  using assms
proof (induction m)
  case Nil
  then show ?case by simp
next
  case (Cons x m)
  obtain k' v' where x: "x = (k', v')" by (cases x)
  from Cons.prems x have "v' \<notin> snd ` set (map_put k v m)"
    using set_map_put[of k v m] by force
  with Cons x show ?case by (auto simp: image_iff)
qed

lemma DNS_ok_Resolve:
  assumes ok: "DNS_ok r"
  shows "DNS_ok (snd (Resolve name callback r))"
proof (cases "map_of (map_tbl r) name")
  case None
  let ?a = "next_entry r"
  let ?e = "\<lparr>status = RESOLVE_IN_PROGRESS, result = None,
             callbacks = (case callback of Some cb \<Rightarrow> [cb] | None \<Rightarrow> [])\<rparr>"
  let ?r = "r\<lparr>heap := (heap r)(?a := ?e), next_entry := Suc ?a,
               map_tbl := map_put name ?a (map_tbl r),
               in_progress := map_put name ?a (in_progress r)\<rparr>"
  from None have r': "snd (Resolve name callback r) = ?r" by (simp add: Resolve_def Let_def)
  from ok have fresh: "?a \<notin> snd ` set (in_progress r)" by (force simp: DNS_ok_def)
  from ok have 1: "sorted_wrt key_less (in_progress ?r)" by (simp add: DNS_ok_def sorted_map_put)
  from ok fresh have 2: "distinct (map snd (in_progress ?r))"
    by (simp add: DNS_ok_def distinct_snd_map_put)
  have 3: "\<forall>(n, a) \<in> set (in_progress ?r). a < next_entry ?r \<and> status (heap ?r a) = RESOLVE_IN_PROGRESS"
    using ok set_map_put[of name ?a "in_progress r"] by (fastforce simp: DNS_ok_def)
  have 4: "\<forall>(n, a) \<in> set (map_tbl ?r). a < next_entry ?r"
    using ok set_map_put[of name ?a "map_tbl r"] by (fastforce simp: DNS_ok_def)
  have 5: "(n, a) \<in> set (in_progress ?r)"
    if "map_of (map_tbl ?r) n = Some a \<and> status (heap ?r a) = RESOLVE_IN_PROGRESS" for n a
  proof (cases "n = name")
    case True
    with that have "a = ?a" by (simp add: map_of_map_put)
    with True show ?thesis by (simp add: map_put_mem)
  next
    case False
    with that have m: "map_of (map_tbl r) n = Some a" by (simp add: map_of_map_put)
    then have "(n, a) \<in> set (map_tbl r)" by (rule map_of_SomeD)
    with ok have "a \<noteq> ?a" by (auto simp: DNS_ok_def)
    with that m ok have "(n, a) \<in> set (in_progress r)" by (simp add: DNS_ok_def)
    with False show ?thesis by (simp add: map_put_other)
  qed
  from 1 2 3 4 5 show ?thesis unfolding r' DNS_ok_def by blast
next
  case (Some a)
  show ?thesis
  proof (cases "status (heap r a) = RESOLVE_IN_PROGRESS \<and> callback \<noteq> None")
    case False
    with Some have "snd (Resolve name callback r) = r"
      by (cases "status (heap r a)"; cases callback) (simp_all add: Resolve_def Let_def)
    with ok show ?thesis by simp
  next
    case True
    then obtain cb where cb: "callback = Some cb" by auto
    let ?r = "r\<lparr>heap := (heap r)(a := (heap r a)\<lparr>callbacks := callbacks (heap r a) @ [cb]\<rparr>)\<rparr>"
    from Some True cb have r': "snd (Resolve name callback r) = ?r" by (simp add: Resolve_def Let_def)
    have st: "status (heap ?r b) = status (heap r b)" for b by simp
    from ok show ?thesis unfolding r' DNS_ok_def st by simp
  qed
qed

lemma DNS_ok_step: "DNS_ok r \<Longrightarrow> DNS_ok (snd (step_DNS x r))"
  by (cases x) (simp_all add: DNS_ok_Resolve DNS_ok_Update DNS_ok_Clear)

lemma DNS_ok_run: "DNS_ok r \<Longrightarrow> DNS_ok (snd (run_DNS ops r))"
proof (induction ops arbitrary: r)
  case Nil
  then show ?case by simp
next
  case (Cons x ops)
  from Cons.IH[OF DNS_ok_step[OF Cons.prems, of x]] show ?case by (simp add: split_beta)
qed


lemma distinct_snd_unique:
  "distinct (map snd xs) \<Longrightarrow> (n, a) \<in> set xs \<Longrightarrow> (n', a) \<in> set xs \<Longrightarrow> n = n'"
proof -
  assume d: "distinct (map snd xs)" and m: "(n, a) \<in> set xs" "(n', a) \<in> set xs"
  from d have "inj_on snd (set xs)" by (simp add: distinct_map)
  from inj_onD[OF this _ m] show ?thesis by simp
qed

lemma Resolve_queues:
  assumes ok: "DNS_ok r"
    and nc: "\<forall>entry. GetEntry name r = Some entry \<longrightarrow> status entry = RESOLVE_IN_PROGRESS"
  shows "fst (Resolve name (Some cb) r) = [] \<and>
         (\<exists>a. pending name a
                ((case GetEntry name r of Some entry \<Rightarrow> callbacks entry | None \<Rightarrow> []) @ [cb])
                (snd (Resolve name (Some cb) r)))"
proof (cases "map_of (map_tbl r) name")
  case None
  then have "pending name (next_entry r) [cb] (snd (Resolve name (Some cb) r))"
    by (simp add: Resolve_def Let_def pending_def map_of_map_put map_put_mem)
  with None show ?thesis by (auto simp: Resolve_def Let_def GetEntry_def)
next
  case (Some a)
  with nc have st: "status (heap r a) = RESOLVE_IN_PROGRESS" by (simp add: GetEntry_def)
  with Some ok have "(name, a) \<in> set (in_progress r)" by (simp add: DNS_ok_def)
  with Some st have "pending name a (callbacks (heap r a) @ [cb]) (snd (Resolve name (Some cb) r))"
    by (simp add: Resolve_def Let_def pending_def)
  with Some st show ?thesis by (auto simp: Resolve_def Let_def GetEntry_def)
qed

lemma step_pending:
  assumes ok: "DNS_ok r" and p: "pending name a cbs r" and nc: "x \<noteq> DoClear_DNS"
    and nr: "\<forall>rd. x = DoUpdate_DNS rd \<longrightarrow> rd a = None"
  shows "invocations_of name (fst (step_DNS x r)) = [] \<and>
         pending name a (cbs @ queued name [x]) (snd (step_DNS x r))"
proof (cases x)
  case DoClear_DNS
  with nc show ?thesis by simp
next
  case (DoUpdate_DNS rd)
  with nr have rd: "rd a = None" by simp
  from ok have srt: "sorted_wrt key_less (in_progress r)" by (simp add: DNS_ok_def)
  from p have mem: "(name, a) \<in> set (in_progress r)" by (simp add: pending_def)
  from invocations_of_Update_loop_none[of "in_progress r" name a rd "heap r", OF srt mem rd]
  have "invocations_of name (fst (Update_DNS rd r)) = []" by (simp add: Update_DNS_simps)
  moreover from p rd have "pending name a cbs (snd (Update_DNS rd r))"
    by (simp add: pending_def Update_DNS_simps Update_loop_heap)
  ultimately show ?thesis using DoUpdate_DNS by simp
next
  case (DoResolve n callback)
  from p have pm: "map_of (map_tbl r) name = Some a" and mem: "(name, a) \<in> set (in_progress r)"
    and st: "status (heap r a) = RESOLVE_IN_PROGRESS" and cbs: "callbacks (heap r a) = cbs"
    by (simp_all add: pending_def)
  from ok mem have lt: "a < next_entry r" by (auto simp: DNS_ok_def)
  show ?thesis
  proof (cases "n = name")
    case True
    with pm st cbs mem DoResolve show ?thesis
      by (cases callback) (simp_all add: Resolve_def Let_def pending_def invocations_of_def)
  next
    case False
    show ?thesis
    proof (cases "map_of (map_tbl r) n")
      case None
      with False pm mem st cbs lt have "invocations_of name (fst (Resolve n callback r)) = []"
        "pending name a cbs (snd (Resolve n callback r))"
        by (simp_all add: Resolve_def Let_def pending_def invocations_of_def map_of_map_put map_put_other)
      moreover from False have "queued name [x] = []" using DoResolve by (cases callback) simp_all
      ultimately show ?thesis using DoResolve by simp
    next
      case (Some a')
      have ne: "a' \<noteq> a" if "status (heap r a') = RESOLVE_IN_PROGRESS"
      proof
        assume "a' = a"
        from Some that ok have "(n, a') \<in> set (in_progress r)" by (simp add: DNS_ok_def)
        with \<open>a' = a\<close> mem ok have "n = name" by (auto simp: DNS_ok_def dest: distinct_snd_unique)
        with False show False by simp
      qed
      have "invocations_of name (fst (Resolve n callback r)) = []"
        using Some False
        by (cases "status (heap r a')"; cases callback) (simp_all add: Resolve_def Let_def invocations_of_def)
      moreover have "pending name a cbs (snd (Resolve n callback r))"
        using Some False pm mem st cbs ne
        by (cases "status (heap r a')"; cases callback) (simp_all add: Resolve_def Let_def pending_def)
      moreover from False have "queued name [x] = []" using DoResolve by (cases callback) simp_all
      ultimately show ?thesis using DoResolve by simp
    qed
  qed
qed

lemma queued_Cons: "queued name (x # ops) = queued name [x] @ queued name ops"
proof (cases x)
  case (DoResolve n callback)
  then show ?thesis by (cases callback) simp_all
qed simp_all

lemma run_pending:
  assumes "DNS_ok r" "pending name a cbs r" "DoClear_DNS \<notin> set ops"
    "\<forall>rd. DoUpdate_DNS rd \<in> set ops \<longrightarrow> rd a = None"
  shows "invocations_of name (fst (run_DNS ops r)) = [] \<and>
         pending name a (cbs @ queued name ops) (snd (run_DNS ops r))"
  using assms
proof (induction ops arbitrary: r cbs)
  case Nil
  then show ?case by (simp add: invocations_of_def)
next
  case (Cons x ops)
  from Cons.prems have x: "x \<noteq> DoClear_DNS" "\<forall>rd. x = DoUpdate_DNS rd \<longrightarrow> rd a = None"
    and ops: "DoClear_DNS \<notin> set ops" "\<forall>rd. DoUpdate_DNS rd \<in> set ops \<longrightarrow> rd a = None"
    by auto
  note s = step_pending[OF Cons.prems(1,2) x]
  note ih = Cons.IH[OF DNS_ok_step[OF Cons.prems(1)] s[THEN conjunct2] ops]
  from s ih show ?case by (simp add: split_beta queued_Cons[of name x ops])
qed

lemma Update_pending:
  assumes ok: "DNS_ok r" and p: "pending name a cbs r" and rd: "ready a = Some res"
  shows "invocations_of name (fst (Update_DNS ready r)) = map (\<lambda>c. (c, name, res)) cbs \<and>
         GetEntry name (snd (Update_DNS ready r)) =
           Some \<lparr>status = (if res \<noteq> None then RESOLVE_SUCCEEDED else RESOLVE_FAILED),
                 result = res, callbacks = cbs\<rparr>"
proof -
  from ok have srt: "sorted_wrt key_less (in_progress r)" by (simp add: DNS_ok_def)
  from p have mem: "(name, a) \<in> set (in_progress r)" and cbs: "callbacks (heap r a) = cbs"
    and pm: "map_of (map_tbl r) name = Some a"
    by (simp_all add: pending_def)
  from invocations_of_Update_loop[OF srt mem, of ready "heap r"] rd cbs
  have 1: "invocations_of name (fst (Update_DNS ready r)) = map (\<lambda>c. (c, name, res)) cbs"
    by (simp add: Update_DNS_simps calls_of_def)
  from mem have "a \<in> snd ` set (in_progress r)" by force
  with rd cbs pm have 2: "GetEntry name (snd (Update_DNS ready r)) =
           Some \<lparr>status = (if res \<noteq> None then RESOLVE_SUCCEEDED else RESOLVE_FAILED),
                 result = res, callbacks = cbs\<rparr>"
    by (simp add: GetEntry_def Update_DNS_simps Update_loop_heap completed_def)
  from 1 2 show ?thesis by (rule conjI)
qed

lemma step_absent:
  assumes abs: "name \<notin> fst ` set (in_progress r)" and x: "\<forall>n c. x = DoResolve n c \<longrightarrow> n \<noteq> name"
  shows "invocations_of name (fst (step_DNS x r)) = [] \<and>
         name \<notin> fst ` set (in_progress (snd (step_DNS x r)))"
proof (cases x)
  case DoClear_DNS
  with abs show ?thesis by (simp add: Clear_DNS_def invocations_of_def)
next
  case (DoUpdate_DNS rd)
  from invocations_of_absent[OF abs, of rd "heap r"]
  have "invocations_of name (fst (Update_DNS rd r)) = []"
    by (simp add: Update_DNS_simps Update_loop_calls_eq)
  moreover from abs have "name \<notin> fst ` set (in_progress (snd (Update_DNS rd r)))"
    by (auto simp: Update_DNS_simps)
  ultimately show ?thesis using DoUpdate_DNS by simp
next
  case (DoResolve n c)
  with x have ne: "n \<noteq> name" by simp
  have 1: "invocations_of name (fst (Resolve n c r)) = []"
  proof (cases "map_of (map_tbl r) n")
    case None
    then show ?thesis by (simp add: Resolve_def Let_def invocations_of_def)
  next
    case (Some a')
    with ne show ?thesis
      by (cases "status (heap r a')"; cases c) (simp_all add: Resolve_def Let_def invocations_of_def)
  qed
  have 2: "name \<notin> fst ` set (in_progress (snd (Resolve n c r)))"
  proof (cases "map_of (map_tbl r) n")
    case None
    with abs ne set_map_put[of n "next_entry r" "in_progress r"] show ?thesis
      by (auto simp: Resolve_def Let_def)
  next
    case (Some a')
    with abs show ?thesis
      by (cases "status (heap r a')"; cases c) (simp_all add: Resolve_def Let_def)
  qed
  from 1 2 DoResolve show ?thesis by simp
qed

lemma run_absent:
  assumes "name \<notin> fst ` set (in_progress r)" "\<forall>n c. DoResolve n c \<in> set ops \<longrightarrow> n \<noteq> name"
  shows "invocations_of name (fst (run_DNS ops r)) = []"
  using assms
proof (induction ops arbitrary: r)
  case Nil
  then show ?case by (simp add: invocations_of_def)
next
  case (Cons x ops)
  from Cons.prems(2) have x: "\<forall>n c. x = DoResolve n c \<longrightarrow> n \<noteq> name"
    and ops: "\<forall>n c. DoResolve n c \<in> set ops \<longrightarrow> n \<noteq> name" by auto
  note s = step_absent[OF Cons.prems(1) x]
  from Cons.IH[OF s[THEN conjunct2] ops] s show ?case by (simp add: split_beta)
qed

lemma Update_removes:
  assumes ok: "DNS_ok r" and p: "pending name a cbs r" and rd: "ready a = Some res"
  shows "name \<notin> fst ` set (in_progress (snd (Update_DNS ready r)))"
proof
  assume "name \<in> fst ` set (in_progress (snd (Update_DNS ready r)))"
  then obtain b where b: "(name, b) \<in> set (in_progress r)" "ready b = None"
    by (auto simp: Update_DNS_simps)
  from ok have "sorted_wrt key_less (in_progress r)" by (simp add: DNS_ok_def)
  moreover from p have "(name, a) \<in> set (in_progress r)" by (simp add: pending_def)
  ultimately have "b = a" using b(1) by (auto dest: sorted_keys_unique)
  with b(2) rd show False by simp
qed

text \<open>
  Claim C10, as stated, fails: once a lookup has completed, a second \<open>Resolve\<close> of the
  same name takes the \<open>RESOLVE_SUCCEEDED\<close> branch and calls the callback before it returns.
\<close>

theorem Resolve_cached_counterexample:
  "fst (Resolve ''host'' (Some 2)
         (snd (Update_DNS (\<lambda>_. Some (Some [''10.0.0.1'']))
                (snd (Resolve ''host'' (Some 1) DNSResolver_init)))))
   = [(2, ''host'', Some [''10.0.0.1''])]"
  by (simp add: Resolve_def Update_DNS_def DNSResolver_init_def)

text \<open>
  Claim C10 (amended). Let the resolver be in a state that operations of the host have
  led to, and let \<open>Resolve\<close> be called for \<open>name\<close> with a callback that is not empty.

  If the cache holds an entry for \<open>name\<close> whose lookup has completed (succeeded or failed),
  \<open>Resolve\<close> calls the callback at once, during the call, with the cached result, and
  changes nothing.

  Otherwise \<open>Resolve\<close> calls nothing and queues the callback: the entry of \<open>name\<close> in the
  cache then holds the callbacks that it held before (none, if the entry is new),
  followed by this one. As long as \<open>Clear\<close> is not called, whatever is resolved and however
  often \<open>Update\<close> finds the lookup still running, nothing is called for \<open>name\<close>; and the
  \<open>Update\<close> that finds the lookup completed calls, for \<open>name\<close>, exactly the queued
  callbacks and those queued since, each once, in the order of their queuing, with the
  result of the lookup, and completes the entry of the cache with this result. After
  that, no operation other than a \<open>Resolve\<close> of \<open>name\<close> calls anything for \<open>name\<close>.
\<close>

theorem Resolve_callback_timing:
  assumes run1: "run_DNS ops1 DNSResolver_init = (calls1, r)"
    and res: "Resolve name (Some cb) r = (calls, r')"
  shows
    "(\<forall>entry. GetEntry name r = Some entry \<and> status entry \<noteq> RESOLVE_IN_PROGRESS \<longrightarrow>
        calls = [(cb, name, result entry)] \<and> r' = r)
     \<and> ((\<forall>entry. GetEntry name r = Some entry \<longrightarrow> status entry = RESOLVE_IN_PROGRESS) \<longrightarrow>
        calls = [] \<and>
        (\<exists>a cbs. map_of (map_tbl r') name = Some a \<and>
           cbs = (case GetEntry name r of Some entry \<Rightarrow> callbacks entry | None \<Rightarrow> []) @ [cb] \<and>
           callbacks (heap r' a) = cbs \<and>
           (\<forall>ops2 calls2 r2 ready res.
              run_DNS ops2 r' = (calls2, r2) \<and> DoClear_DNS \<notin> set ops2 \<and>
              (\<forall>rd. DoUpdate_DNS rd \<in> set ops2 \<longrightarrow> rd a = None) \<and> ready a = Some res \<longrightarrow>
              invocations_of name calls2 = [] \<and>
              invocations_of name (fst (Update_DNS ready r2)) =
                map (\<lambda>c. (c, name, res)) (cbs @ queued name ops2) \<and>
              GetEntry name (snd (Update_DNS ready r2)) =
                Some \<lparr>status = (if res \<noteq> None then RESOLVE_SUCCEEDED else RESOLVE_FAILED),
                      result = res, callbacks = cbs @ queued name ops2\<rparr> \<and>
              (\<forall>ops3. (\<forall>n c. DoResolve n c \<in> set ops3 \<longrightarrow> n \<noteq> name) \<longrightarrow>
                 invocations_of name (fst (run_DNS ops3 (snd (Update_DNS ready r2)))) = []))))"
proof -
  have cached: "calls = [(cb, name, result entry)] \<and> r' = r"
    if "GetEntry name r = Some entry \<and> status entry \<noteq> RESOLVE_IN_PROGRESS" for entry
  proof -
    from that obtain a where a: "map_of (map_tbl r) name = Some a" "entry = heap r a"
      "status (heap r a) \<noteq> RESOLVE_IN_PROGRESS"
      by (auto simp: GetEntry_def)
    show ?thesis using a res by (cases "status (heap r a)") (auto simp: Resolve_def Let_def)
  qed
  let ?cbs = "(case GetEntry name r of Some entry \<Rightarrow> callbacks entry | None \<Rightarrow> []) @ [cb]"
  have queue: "calls = [] \<and>
        (\<exists>a cbs. map_of (map_tbl r') name = Some a \<and> cbs = ?cbs \<and>
           callbacks (heap r' a) = cbs \<and>
           (\<forall>ops2 calls2 r2 ready res.
              run_DNS ops2 r' = (calls2, r2) \<and> DoClear_DNS \<notin> set ops2 \<and>
              (\<forall>rd. DoUpdate_DNS rd \<in> set ops2 \<longrightarrow> rd a = None) \<and> ready a = Some res \<longrightarrow>
              invocations_of name calls2 = [] \<and>
              invocations_of name (fst (Update_DNS ready r2)) =
                map (\<lambda>c. (c, name, res)) (cbs @ queued name ops2) \<and>
              GetEntry name (snd (Update_DNS ready r2)) =
                Some \<lparr>status = (if res \<noteq> None then RESOLVE_SUCCEEDED else RESOLVE_FAILED),
                      result = res, callbacks = cbs @ queued name ops2\<rparr> \<and>
              (\<forall>ops3. (\<forall>n c. DoResolve n c \<in> set ops3 \<longrightarrow> n \<noteq> name) \<longrightarrow>
                 invocations_of name (fst (run_DNS ops3 (snd (Update_DNS ready r2)))) = [])))"
    if nc: "\<forall>entry. GetEntry name r = Some entry \<longrightarrow> status entry = RESOLVE_IN_PROGRESS"
  proof -
    from DNS_ok_run[OF DNS_ok_init, of ops1] run1 have ok: "DNS_ok r" by simp
    from Resolve_queues[OF ok nc, of cb] res have c: "calls = []" by simp
    from Resolve_queues[OF ok nc, of cb] res obtain a where p: "pending name a ?cbs r'" by auto
    from DNS_ok_Resolve[OF ok, of name "Some cb"] res have ok': "DNS_ok r'" by simp
    have later: "invocations_of name calls2 = [] \<and>
                invocations_of name (fst (Update_DNS ready r2)) =
                  map (\<lambda>c. (c, name, res)) (?cbs @ queued name ops2) \<and>
                GetEntry name (snd (Update_DNS ready r2)) =
                  Some \<lparr>status = (if res \<noteq> None then RESOLVE_SUCCEEDED else RESOLVE_FAILED),
                        result = res, callbacks = ?cbs @ queued name ops2\<rparr> \<and>
                (\<forall>ops3. (\<forall>n c. DoResolve n c \<in> set ops3 \<longrightarrow> n \<noteq> name) \<longrightarrow>
                   invocations_of name (fst (run_DNS ops3 (snd (Update_DNS ready r2)))) = [])"
      if h: "run_DNS ops2 r' = (calls2, r2) \<and> DoClear_DNS \<notin> set ops2 \<and>
                (\<forall>rd. DoUpdate_DNS rd \<in> set ops2 \<longrightarrow> rd a = None) \<and> ready a = Some res"
      for ops2 calls2 r2 ready res
    proof -
      from h have h1: "DoClear_DNS \<notin> set ops2" "\<forall>rd. DoUpdate_DNS rd \<in> set ops2 \<longrightarrow> rd a = None"
        and h2: "ready a = Some res" and h3: "run_DNS ops2 r' = (calls2, r2)" by simp_all
      from run_pending[OF ok' p h1] h3 have 1: "invocations_of name calls2 = []"
        and p2: "pending name a (?cbs @ queued name ops2) r2" by simp_all
      from DNS_ok_run[OF ok', of ops2] h3 have ok2: "DNS_ok r2" by simp
      note rm = Update_removes[of r2 name a _ ready res, OF ok2 p2 h2]
      have 3: "\<forall>ops3. (\<forall>n c. DoResolve n c \<in> set ops3 \<longrightarrow> n \<noteq> name) \<longrightarrow>
                   invocations_of name (fst (run_DNS ops3 (snd (Update_DNS ready r2)))) = []"
        using run_absent[OF rm] by blast
      from Update_pending[of r2 name a _ ready res, OF ok2 p2 h2] 1 3 show ?thesis by simp
    qed
    from p have "map_of (map_tbl r') name = Some a" "callbacks (heap r' a) = ?cbs"
      by (simp_all add: pending_def)
    with later c show ?thesis by blast
  qed
  from cached queue show ?thesis by blast
qed

lemmas DNS_eval = Resolve_def Update_DNS_def DNSResolver_init_def GetEntry_def Let_def
  invocations_of_def example_operations_def

theorem Resolve_callback_timing_witness:
  "\<exists>r r' calls2 r2 calls3 r3.
     run_DNS [DoResolve ''host'' (Some 1)] DNSResolver_init = ([], r) \<and>
     GetEntry ''host'' r = Some \<lparr>status = RESOLVE_IN_PROGRESS, result = None, callbacks = [1]\<rparr> \<and>
     Resolve ''host'' (Some 2) r = ([], r') \<and>
     map_of (map_tbl r') ''host'' = Some 0 \<and> callbacks (heap r' 0) = [1, 2] \<and>
     run_DNS example_operations r' = (calls2, r2) \<and> DoClear_DNS \<notin> set example_operations \<and>
     (\<forall>rd. DoUpdate_DNS rd \<in> set example_operations \<longrightarrow> rd 0 = None) \<and>
     invocations_of ''host'' calls2 = [] \<and>
     invocations_of ''host'' (fst (Update_DNS (\<lambda>a. Some (Some example_address)) r2)) =
       [(1, ''host'', Some example_address), (2, ''host'', Some example_address),
        (4, ''host'', Some example_address)] \<and>
     GetEntry ''host'' (snd (Update_DNS (\<lambda>a. Some (Some example_address)) r2)) =
       Some \<lparr>status = RESOLVE_SUCCEEDED, result = Some example_address, callbacks = [1, 2, 4]\<rparr> \<and>
     (\<forall>n c. DoResolve n c \<in> set [DoUpdate_DNS (\<lambda>a. Some (Some example_address)), DoClear_DNS,
                                     DoResolve ''other'' (Some 5)] \<longrightarrow> n \<noteq> ''host'') \<and>
     invocations_of ''host''
       (fst (run_DNS [DoUpdate_DNS (\<lambda>a. Some (Some example_address)), DoClear_DNS,
                      DoResolve ''other'' (Some 5)]
               (snd (Update_DNS (\<lambda>a. Some (Some example_address)) r2)))) = [] \<and>
     run_DNS [DoResolve ''host'' (Some 1), DoUpdate_DNS (\<lambda>a. Some (Some example_address))]
       DNSResolver_init = (calls3, r3) \<and>
     GetEntry ''host'' r3 =
       Some \<lparr>status = RESOLVE_SUCCEEDED, result = Some example_address, callbacks = [1]\<rparr> \<and>
     Resolve ''host'' (Some 2) r3 = ([(2, ''host'', Some example_address)], r3)"
proof -
  let ?ready = "\<lambda>a::nat. Some (Some example_address)"
  obtain c1 r where run1: "run_DNS [DoResolve ''host'' (Some 1)] DNSResolver_init = (c1, r)"
    by (cases "run_DNS [DoResolve ''host'' (Some 1)] DNSResolver_init")
  obtain calls r' where res: "Resolve ''host'' (Some 2) r = (calls, r')"
    by (cases "Resolve ''host'' (Some 2) r")
  obtain calls2 r2 where run2: "run_DNS example_operations r' = (calls2, r2)"
    by (cases "run_DNS example_operations r'")
  from run1 have c1: "c1 = []" and r: "r = snd (Resolve ''host'' (Some 1) DNSResolver_init)"
    by (simp_all add: DNS_eval)
  have ge: "GetEntry ''host'' r = Some \<lparr>status = RESOLVE_IN_PROGRESS, result = None, callbacks = [1]\<rparr>"
    unfolding r by (simp add: DNS_eval)
  from res have r': "r' = snd (Resolve ''host'' (Some 2) r)" by simp
  have m: "map_of (map_tbl r') ''host'' = Some 0" unfolding r' r by (simp add: DNS_eval)
  have nc: "DoClear_DNS \<notin> set example_operations" by (simp add: example_operations_def)
  have nr: "\<forall>rd. DoUpdate_DNS rd \<in> set example_operations \<longrightarrow> rd 0 = None"
    by (auto simp: example_operations_def)
  have q: "queued ''host'' example_operations = [4]" by (simp add: example_operations_def)
  note T = Resolve_callback_timing[OF run1 res]
  from T ge have "calls = []" by simp
  from T ge obtain a cbs where a: "map_of (map_tbl r') ''host'' = Some a" "cbs = [1, 2]"
      "callbacks (heap r' a) = cbs"
    and later: "\<And>ops2 calls2 r2 ready res.
       run_DNS ops2 r' = (calls2, r2) \<and> DoClear_DNS \<notin> set ops2 \<and>
       (\<forall>rd. DoUpdate_DNS rd \<in> set ops2 \<longrightarrow> rd a = None) \<and> ready a = Some res \<Longrightarrow>
       invocations_of ''host'' calls2 = [] \<and>
       invocations_of ''host'' (fst (Update_DNS ready r2)) =
         map (\<lambda>c. (c, ''host'', res)) (cbs @ queued ''host'' ops2) \<and>
       GetEntry ''host'' (snd (Update_DNS ready r2)) =
         Some \<lparr>status = (if res \<noteq> None then RESOLVE_SUCCEEDED else RESOLVE_FAILED),
               result = res, callbacks = cbs @ queued ''host'' ops2\<rparr> \<and>
       (\<forall>ops3. (\<forall>n c. DoResolve n c \<in> set ops3 \<longrightarrow> n \<noteq> ''host'') \<longrightarrow>
          invocations_of ''host'' (fst (run_DNS ops3 (snd (Update_DNS ready r2)))) = [])"
    by auto
  from a(1) m have a0: "a = 0" by simp
  from later[of example_operations calls2 r2 ?ready "Some example_address"] run2 nc nr a0 q a(2)
  have l: "invocations_of ''host'' calls2 = []"
    "invocations_of ''host'' (fst (Update_DNS ?ready r2)) =
       [(1, ''host'', Some example_address), (2, ''host'', Some example_address),
        (4, ''host'', Some example_address)]"
    "GetEntry ''host'' (snd (Update_DNS ?ready r2)) =
       Some \<lparr>status = RESOLVE_SUCCEEDED, result = Some example_address, callbacks = [1, 2, 4]\<rparr>"
    "\<forall>ops3. (\<forall>n c. DoResolve n c \<in> set ops3 \<longrightarrow> n \<noteq> ''host'') \<longrightarrow>
          invocations_of ''host'' (fst (run_DNS ops3 (snd (Update_DNS ?ready r2)))) = []"
    by simp_all
  have o3: "\<forall>n c. DoResolve n c \<in> set [DoUpdate_DNS ?ready, DoClear_DNS,
                                     DoResolve ''other'' (Some 5)] \<longrightarrow> n \<noteq> ''host''"
    by simp
  from l(4) o3 have l4: "invocations_of ''host''
       (fst (run_DNS [DoUpdate_DNS ?ready, DoClear_DNS, DoResolve ''other'' (Some 5)]
               (snd (Update_DNS ?ready r2)))) = []"
    by blast
  obtain calls3 r3 where run3:
    "run_DNS [DoResolve ''host'' (Some 1), DoUpdate_DNS ?ready] DNSResolver_init = (calls3, r3)"
    by (cases "run_DNS [DoResolve ''host'' (Some 1), DoUpdate_DNS ?ready] DNSResolver_init")
  obtain calls4 r4 where res4: "Resolve ''host'' (Some 2) r3 = (calls4, r4)"
    by (cases "Resolve ''host'' (Some 2) r3")
  from run3 have ge3: "GetEntry ''host'' r3 =
       Some \<lparr>status = RESOLVE_SUCCEEDED, result = Some example_address, callbacks = [1]\<rparr>"
    by (auto simp: DNS_eval)
  from Resolve_callback_timing[OF run3 res4] ge3 res4
  have c: "Resolve ''host'' (Some 2) r3 = ([(2, ''host'', Some example_address)], r3)" by simp
  from run1 c1 ge res \<open>calls = []\<close> m a a0 run2 nc nr l(1,2,3) o3 l4 run3 ge3 c show ?thesis by blast
qed

text \<open>The condition on \<open>Clear\<close> is needed: \<open>Clear\<close> empties the cache but not
  \<open>in_progress\<close>, so that a \<open>Resolve\<close> of the same name after it starts a second lookup,
  whose entry takes the place of the first in \<open>in_progress\<close>. The callback of the first is
  then never called.\<close>

lemma Clear_drops_queued_callback:
  "fst (run_DNS [DoResolve ''host'' (Some 1), DoClear_DNS, DoResolve ''host'' (Some 2),
                 DoUpdate_DNS (\<lambda>a. Some (Some example_address)),
                 DoUpdate_DNS (\<lambda>a. Some (Some example_address))] DNSResolver_init)
   = [(2, ''host'', Some example_address)]"
  by (simp add: DNS_eval Clear_DNS_def)


section \<open>Data block receiver: reassembly\<close>


lemma block_num_fragments_nat:
  "block_num_fragments (int fs) block = int (count_fragments fs (length block))"
  by (simp add: block_num_fragments_def count_fragments_def flip: of_nat_div of_nat_mod)

lemma count_fragments_less:
  assumes "0 < fs"
  shows "i < count_fragments fs n \<longleftrightarrow> i * fs < n"
proof (cases "n mod fs = 0")
  case True
  then have n: "n = n div fs * fs" by auto
  have "i < n div fs \<longleftrightarrow> i * fs < n div fs * fs"
    using assms by simp
  with n True show ?thesis by (simp add: count_fragments_def)
next
  case False
  have "i * fs \<noteq> n" using False by auto
  moreover have "i \<le> n div fs \<longleftrightarrow> i * fs \<le> n"
    using assms by (simp add: less_eq_div_iff_mult_less_eq)
  ultimately show ?thesis using False by (auto simp: count_fragments_def)
qed

lemma count_fragments_mono:
  assumes "0 < fs" "n \<le> m"
  shows "count_fragments fs n \<le> count_fragments fs m"
proof (rule ccontr)
  assume "\<not> ?thesis"
  then have "count_fragments fs m < count_fragments fs n" by simp
  then have "count_fragments fs m * fs < n"
    using count_fragments_less[OF assms(1)] by blast
  with assms(2) have "count_fragments fs m * fs < m" by simp
  then have "count_fragments fs m < count_fragments fs m"
    using count_fragments_less[OF assms(1)] by blast
  then show False by simp
qed

lemma length_block_fragment:
  "0 < fs \<Longrightarrow> length (block_fragment (int fs) block i) = min fs (length block - i * fs)"
  by (simp add: block_fragment_def)

lemma nth_memcpy_at:
  "start + n \<le> length dst \<Longrightarrow> n \<le> length src \<Longrightarrow> p < length dst \<Longrightarrow>
   memcpy_at dst start src n ! p = (if start \<le> p \<and> p < start + n then src ! (p - start) else dst ! p)"
  by (auto simp: memcpy_at_def nth_append min_def)

lemma length_memcpy_at:
  "start + n \<le> length dst \<Longrightarrow> n \<le> length src \<Longrightarrow> length (memcpy_at dst start src n) = length dst"
  by (auto simp: memcpy_at_def)

lemma fragment_index:
  assumes "0 < (fs::nat)" "j * fs \<le> p" "p < j * fs + fs"
  shows "p div fs = j"
  using assms by (intro div_nat_eqI) (simp_all add: mult.commute)

lemma nth_block_fragment:
  "q < length (block_fragment (int fs) block i) \<Longrightarrow>
   block_fragment (int fs) block i ! q = block ! (i * fs + q)"
proof -
  assume q: "q < length (block_fragment (int fs) block i)"
  then have "i * fs \<le> length block" by (auto simp: block_fragment_def)
  with q show ?thesis by (simp add: block_fragment_def)
qed

lemma ProcessFragment_admissible:
  assumes "blockSize \<le> m_maxBlockSize r" "m_error r = 0"
    and "m_blockSize r = blockSize \<or> m_blockSize r = 0"
    and "m_numFragments r = numFragments \<or> m_numFragments r = 0"
    and "numFragments \<le> m_maxFragments r"
    and "0 \<le> fragmentId" "fragmentId < numFragments"
    and "nat fragmentId < length (m_receivedFragment r)"
    and "fragmentId * m_fragmentSize r + fragmentBytes \<le> blockSize"
  shows "ProcessFragment blockSize numFragments fragmentId fragmentBytes fragmentData r =
     (let r3 = r\<lparr>m_blockSize := blockSize, m_numFragments := numFragments,
                    acks := acks r @ [fragmentId]\<rparr> in
      if m_receivedFragment r ! nat fragmentId = 0 then
        if \<not> (m_numReceivedFragments r + 1 \<ge> 0 \<and> m_numReceivedFragments r + 1 \<le> numFragments)
        then Inl AssertionFailed
        else if fragmentBytes < 0 \<or> int (length fragmentData) < fragmentBytes
                \<or> fragmentId * m_fragmentSize r < 0
                \<or> int (length (m_data r)) < fragmentId * m_fragmentSize r + fragmentBytes
        then Inl OutOfBounds
        else Inr (r3\<lparr>m_receivedFragment := (m_receivedFragment r)[nat fragmentId := 1],
                     m_numReceivedFragments := m_numReceivedFragments r + 1,
                     m_data := memcpy_at (m_data r) (nat (fragmentId * m_fragmentSize r))
                                 fragmentData (nat fragmentBytes)\<rparr>)
      else Inr r3)"
proof -
  have a: "\<not> blockSize > m_maxBlockSize r" using assms(1) by simp
  have r1: "(if m_blockSize r = 0 then r\<lparr>m_blockSize := blockSize\<rparr> else r)
             = r\<lparr>m_blockSize := blockSize\<rparr>"
    using assms(3) by auto
  have b: "\<not> m_numFragments r > m_maxFragments r" using assms(4,5,6,7) by auto
  have r2: "(if m_numFragments r = 0 then r\<lparr>m_blockSize := blockSize, m_numFragments := numFragments\<rparr>
              else r\<lparr>m_blockSize := blockSize\<rparr>)
             = r\<lparr>m_blockSize := blockSize, m_numFragments := numFragments\<rparr>"
    using assms(4) by auto
  show ?thesis
    unfolding ProcessFragment_def
    using a b assms(2,6,7,8,9)
    by (simp add: r1 Let_def r2)
qed

lemma ProcessFragment_step:
  assumes fs: "0 < fs" and n0: "0 < length block" and nM: "length block \<le> M"
    and inv: "frag_inv fs block M S r"
    and i: "i < count_fragments fs (length block)"
  shows "\<exists>r'. ProcessFragment (int (length block)) (block_num_fragments (int fs) block) (int i)
             (int (length (block_fragment (int fs) block i))) (block_fragment (int fs) block i) r = Inr r'
           \<and> frag_inv fs block M (insert i S) r' \<and> acks r' = acks r @ [int i]"
proof -
  let ?n = "length block"
  let ?k = "count_fragments fs ?n"
  let ?K = "count_fragments fs M"
  let ?f = "block_fragment (int fs) block i"
  have kK: "?k \<le> ?K" using count_fragments_mono[OF fs nM] .
  have iK: "i < ?K" using i kK by simp
  have ifs: "i * fs < ?n" using count_fragments_less[OF fs] i by blast
  have k0: "0 < ?k" using i by simp
  have len: "length ?f = min fs (?n - i * fs)" using length_block_fragment[OF fs] .
  have fin: "i * fs + length ?f \<le> ?n" using ifs len by simp
  have card: "card (insert i S) \<le> ?k"
  proof -
    have "insert i S \<subseteq> {..< ?k}" using inv i by (auto simp: frag_inv_def)
    then have "card (insert i S) \<le> card {..< ?k}" by (intro card_mono) auto
    then show ?thesis by simp
  qed
  have finS: "finite S" using inv by (auto simp: frag_inv_def intro: finite_subset)
  have adm: "ProcessFragment (int ?n) (block_num_fragments (int fs) block) (int i) (int (length ?f)) ?f r =
     (let r3 = r\<lparr>m_blockSize := int ?n, m_numFragments := int ?k, acks := acks r @ [int i]\<rparr> in
      if m_receivedFragment r ! i = 0 then
        Inr (r3\<lparr>m_receivedFragment := (m_receivedFragment r)[i := 1],
                  m_numReceivedFragments := int (card S) + 1,
                  m_data := memcpy_at (m_data r) (i * fs) ?f (length ?f)\<rparr>)
      else Inr r3)"
  proof -
    have 1: "int ?n \<le> m_maxBlockSize r" "m_error r = 0"
      "m_blockSize r = int ?n \<or> m_blockSize r = 0"
      "m_numFragments r = int ?k \<or> m_numFragments r = 0"
      "int ?k \<le> m_maxFragments r" "0 \<le> int i" "int i < int ?k"
      "nat (int i) < length (m_receivedFragment r)"
      using inv nM kK i iK by (auto simp: frag_inv_def)
    have 2: "int i * m_fragmentSize r + int (length ?f) \<le> int ?n"
      using inv fin by (simp add: frag_inv_def flip: of_nat_mult of_nat_add)
    have 3: "m_receivedFragment r ! i = 0 \<Longrightarrow> int (card S) + 1 \<le> int ?k"
    proof -
      assume "m_receivedFragment r ! i = 0"
      then have "i \<notin> S" using inv iK by (auto simp: frag_inv_def)
      then have "card (insert i S) = Suc (card S)" using finS by simp
      with card show ?thesis by simp
    qed
    have 4: "int (length (m_data r)) \<ge> int i * int fs + int (length ?f)"
      using inv fin nM by (simp add: frag_inv_def flip: of_nat_mult of_nat_add)
    have 5: "m_fragmentSize r = int fs" "m_numReceivedFragments r = int (card S)"
      using inv by (auto simp: frag_inv_def)
    show ?thesis
      unfolding block_num_fragments_nat
      using 3 4
      by (simp add: ProcessFragment_admissible[OF 1 2] Let_def 5 nat_mult_distrib flip: of_nat_mult)
  qed
  have lenM: "length (m_data r) = M" using inv by (simp add: frag_inv_def)
  have finM: "i * fs + length ?f \<le> length (m_data r)" using fin nM lenM by simp
  show ?thesis
  proof (cases "i \<in> S")
    case True
    then have flag: "m_receivedFragment r ! i \<noteq> 0" using inv iK by (auto simp: frag_inv_def)
    have eq: "insert i S = S" using True by auto
    have "frag_inv fs block M S (r\<lparr>m_blockSize := int ?n, m_numFragments := int ?k, acks := acks r @ [int i]\<rparr>)"
      using inv by (simp add: frag_inv_def)
    then show ?thesis using flag by (simp add: adm eq)
  next
    case False
    then have flag: "m_receivedFragment r ! i = 0" using inv iK by (auto simp: frag_inv_def)
    have cardS: "card (insert i S) = Suc (card S)" using False finS by simp
    define r' where "r' = r\<lparr>m_blockSize := int ?n, m_numFragments := int ?k,
        acks := acks r @ [int i], m_receivedFragment := (m_receivedFragment r)[i := 1],
        m_numReceivedFragments := int (card S) + 1,
        m_data := memcpy_at (m_data r) (i * fs) ?f (length ?f)\<rparr>"
    have PF: "ProcessFragment (int ?n) (block_num_fragments (int fs) block) (int i)
             (int (length ?f)) ?f r = Inr r'"
      using flag by (simp add: adm r'_def)
    have data: "m_data r' ! p = block ! p"
      if j: "j \<in> insert i S" and p: "j * fs \<le> p" "p < j * fs + fs" "p < ?n" for j p
    proof (cases "j = i")
      case True
      with p len have q: "p - i * fs < length ?f" by auto
      with p True have q': "p < i * fs + length ?f" by simp
      have "m_data r' ! p = ?f ! (p - i * fs)"
        using nth_memcpy_at[OF finM, of ?f p] p True q' nM lenM by (simp add: r'_def)
      also have "\<dots> = block ! p" using nth_block_fragment[OF q] p True by simp
      finally show ?thesis .
    next
      case False
      with j have jS: "j \<in> S" by simp
      have "\<not> (i * fs \<le> p \<and> p < i * fs + fs)"
        using fragment_index[OF fs p(1,2)] fragment_index[OF fs, of i p] False by auto
      then have "\<not> (i * fs \<le> p \<and> p < i * fs + length ?f)" using len by auto
      then have "m_data r' ! p = m_data r ! p"
        using nth_memcpy_at[OF finM, of ?f p] p nM lenM by (auto simp: r'_def)
      also have "\<dots> = block ! p" using inv jS p by (simp add: frag_inv_def)
      finally show ?thesis .
    qed
    have flags: "(m_receivedFragment r' ! j \<noteq> 0) = (j \<in> insert i S)" if "j < ?K" for j
      using inv that iK by (auto simp: frag_inv_def r'_def nth_list_update)
    have sub: "insert i S \<subseteq> {..< ?k}" using inv i by (auto simp: frag_inv_def)
    have rest: "m_maxBlockSize r' = int M" "m_fragmentSize r' = int fs"
      "m_maxFragments r' = int ?K" "length (m_data r') = M"
      "length (m_receivedFragment r') = ?K" "m_error r' = 0"
      "m_numReceivedFragments r' = int (card (insert i S))"
      "m_blockSize r' = int ?n" "m_numFragments r' = int ?k"
      using inv cardS length_memcpy_at[OF finM, of ?f] by (simp_all add: frag_inv_def r'_def)
    have "frag_inv fs block M (insert i S) r'"
      unfolding frag_inv_def using rest sub flags data by blast
    with PF show ?thesis by (simp add: r'_def)
  qed
qed


lemma deliver_fragments_inv:
  assumes fs: "0 < fs" and n0: "0 < length block" and nM: "length block \<le> M"
  shows "frag_inv fs block M S r \<Longrightarrow> set ids \<subseteq> {..< count_fragments fs (length block)} \<Longrightarrow>
    \<exists>r'. deliver_fragments (int fs) block ids r = Inr r' \<and> frag_inv fs block M (S \<union> set ids) r'
       \<and> acks r' = acks r @ map int ids"
proof (induction ids arbitrary: S r)
  case Nil
  then show ?case by simp
next
  case (Cons i ids)
  from Cons.prems(2) have i: "i < count_fragments fs (length block)" by simp
  from ProcessFragment_step[OF fs n0 nM Cons.prems(1) i]
  obtain r1 where r1: "ProcessFragment (int (length block)) (block_num_fragments (int fs) block) (int i)
             (int (length (block_fragment (int fs) block i))) (block_fragment (int fs) block i) r = Inr r1"
    "frag_inv fs block M (insert i S) r1" "acks r1 = acks r @ [int i]"
    by blast
  from Cons.prems(2) have "set ids \<subseteq> {..< count_fragments fs (length block)}" by simp
  from Cons.IH[OF r1(2) this]
  obtain r' where r': "deliver_fragments (int fs) block ids r1 = Inr r'"
    "frag_inv fs block M (insert i S \<union> set ids) r'" "acks r' = acks r1 @ map int ids"
    by blast
  have "insert i S \<union> set ids = S \<union> set (i # ids)" by auto
  with r1 r' show ?case by simp
qed

lemma DataBlockReceiver_new_inv:
  assumes "0 < fs" "int fs \<le> MaxFragmentSize" "0 < M" "length mem = M"
  shows "\<exists>r0. DataBlockReceiver_new MaxFragmentSize mem (int fs) (int M) = Inr r0
           \<and> frag_inv fs block M {} r0 \<and> acks r0 = []"
proof -
  have mf: "int M div int fs + (if int M mod int fs \<noteq> 0 then 1 else 0) = int (count_fragments fs M)"
    by (simp add: count_fragments_def flip: of_nat_div of_nat_mod)
  show ?thesis
    unfolding DataBlockReceiver_new_def Let_def mf
    using assms by (simp add: Clear_def frag_inv_def)
qed

lemma frag_inv_complete:
  assumes fs: "0 < fs" and n0: "0 < length block" and nM: "length block \<le> M"
    and inv: "frag_inv fs block M {..< count_fragments fs (length block)} r"
  shows "GetBlock r = Some \<lparr>block_data = m_data r, block_size = int (length block)\<rparr>
         \<and> take (length block) (m_data r) = block"
proof -
  let ?k = "count_fragments fs (length block)"
  have k0: "0 < ?k" using count_fragments_less[OF fs, of 0] n0 by simp
  then have ne: "{..< ?k} \<noteq> {}" by auto
  from inv ne have "m_blockSize r = int (length block)" "m_numFragments r = int ?k"
    "m_numReceivedFragments r = int ?k"
    by (auto simp: frag_inv_def)
  then have G: "GetBlock r = Some \<lparr>block_data = m_data r, block_size = int (length block)\<rparr>"
    using n0 by (simp add: GetBlock_def ReceiveCompleted_def)
  have len: "length (m_data r) = M" using inv by (simp add: frag_inv_def)
  have "take (length block) (m_data r) = block"
  proof (rule nth_equalityI)
    show "length (take (length block) (m_data r)) = length block" using len nM by simp
  next
    fix p assume "p < length (take (length block) (m_data r))"
    then have p: "p < length block" by simp
    let ?j = "p div fs"
    have j1: "?j * fs \<le> p" using fs by (simp add: div_times_less_eq_dividend)
    have j2: "p < ?j * fs + fs" using dividend_less_div_times[OF fs, of p] by (simp add: add.commute)
    have "?j * fs < length block" using j1 p by (rule le_less_trans)
    then have "?j \<in> {..< ?k}" using count_fragments_less[OF fs] by simp
    with inv j1 j2 p have "m_data r ! p = block ! p" by (simp add: frag_inv_def)
    with p show "take (length block) (m_data r) ! p = block ! p" by simp
  qed
  with G show ?thesis by simp
qed

text \<open>
  Claim C8. A non-empty block of at most \<open>maxBlockSize\<close> bytes is cut into fragments of
  \<open>fragmentSize\<close> bytes. Whatever the order of the calls of \<open>ProcessFragment\<close> and however
  often a fragment is repeated, once every fragment has been delivered \<open>GetBlock\<close> returns
  the buffer with the size of the block, the first bytes of the buffer are the block, and
  \<open>SendAck\<close> has been called exactly once for each call, with its fragment id, in order.
\<close>

theorem fragment_reassembly:
  assumes "0 < fragmentSize" and "fragmentSize \<le> MaxFragmentSize"
    and "block \<noteq> []" and "int (length block) \<le> maxBlockSize"
    and "int (length mem) = maxBlockSize"
    and "set ids = {..< nat (block_num_fragments fragmentSize block)}"
  shows "\<exists>r0 r. DataBlockReceiver_new MaxFragmentSize mem fragmentSize maxBlockSize = Inr r0
           \<and> deliver_fragments fragmentSize block ids r0 = Inr r
           \<and> GetBlock r = Some \<lparr>block_data = m_data r, block_size = int (length block)\<rparr>
           \<and> take (length block) (m_data r) = block
           \<and> acks r = map int ids"
proof -
  define fs where "fs = nat fragmentSize"
  define M where "M = length mem"
  have fsz: "fragmentSize = int fs" "0 < fs" using assms(1) by (simp_all add: fs_def)
  have Mz: "maxBlockSize = int M" using assms(5) by (simp add: M_def)
  have n0: "0 < length block" using assms(3) by simp
  have nM: "length block \<le> M" using assms(4) Mz by simp
  have M0: "0 < M" using n0 nM by linarith
  have ids: "set ids = {..< count_fragments fs (length block)}"
    using assms(6) by (simp add: fsz block_num_fragments_nat)
  from DataBlockReceiver_new_inv[OF fsz(2) _ M0, of MaxFragmentSize mem block] assms(2)
  obtain r0 where r0: "DataBlockReceiver_new MaxFragmentSize mem (int fs) (int M) = Inr r0"
    "frag_inv fs block M {} r0" "acks r0 = []"
    by (auto simp: fsz M_def)
  from deliver_fragments_inv[OF fsz(2) n0 nM r0(2), of ids] ids
  obtain r where r: "deliver_fragments (int fs) block ids r0 = Inr r"
    "frag_inv fs block M ({} \<union> set ids) r" "acks r = acks r0 @ map int ids"
    by auto
  from r(2) ids have "frag_inv fs block M {..< count_fragments fs (length block)} r" by simp
  from frag_inv_complete[OF fsz(2) n0 nM this] r0 r show ?thesis
    by (simp add: fsz Mz)
qed

theorem fragment_reassembly_witness:
  "\<exists>r0 r. DataBlockReceiver_new 1024 [0, 0, 0, 0, 0, 0, 0, 0] 2 8 = Inr r0
           \<and> deliver_fragments 2 [10, 20, 30, 40, 50] [2, 1, 2, 0, 1] r0 = Inr r
           \<and> GetBlock r = Some \<lparr>block_data = m_data r, block_size = int (length [10, 20, 30, 40, 50 :: 8 word])\<rparr>
           \<and> take (length [10, 20, 30, 40, 50 :: 8 word]) (m_data r) = [10, 20, 30, 40, 50]
           \<and> acks r = map int [2, 1, 2, 0, 1]"
proof (rule fragment_reassembly)
  show "set [2, 1, 2, 0, 1] = {..< nat (block_num_fragments 2 [10, 20, 30, 40, 50 :: 8 word])}"
    by (auto simp: block_num_fragments_def)
qed simp_all


section \<open>Floating-point numbers: rounding keeps the order\<close>

text \<open>\<open>ilog2\<close> is the position of the leading digit.\<close>

lemma ilog2_bounds:
  assumes "0 < x"
  shows "2 powi (ilog2 x) \<le> x \<and> x < 2 powi (ilog2 x + 1)"
proof (cases "1 \<le> x")
  case True
  let ?n = "\<lfloor>x\<rfloor>"
  from True have n: "0 < ?n" by simp
  from bitlen_bounds[OF n] have b: "2 ^ nat (bitlen ?n - 1) \<le> ?n" "?n < 2 ^ nat (bitlen ?n)" by auto
  from n have bl: "1 \<le> bitlen ?n" by (simp add: bitlen_alt_def)
  have "(2::real) ^ nat (bitlen ?n - 1) \<le> of_int ?n" using b(1) by (metis of_int_le_iff of_int_numeral of_int_power)
  also have "\<dots> \<le> x" by simp
  finally have 1: "2 powi (ilog2 x) \<le> x" using True bl by (simp add: ilog2_def power_int_def)
  have "?n + 1 \<le> 2 ^ nat (bitlen ?n)" using b(2) by simp
  then have "of_int (?n + 1) \<le> (2::real) ^ nat (bitlen ?n)" by (metis of_int_le_iff of_int_numeral of_int_power)
  moreover have "x < of_int (?n + 1)" by linarith
  ultimately have "x < 2 ^ nat (bitlen ?n)" by linarith
  then have 2: "x < 2 powi (ilog2 x + 1)" using True bl by (simp add: ilog2_def power_int_def)
  from 1 2 show ?thesis ..
next
  case False
  with assms have x: "0 < x" "x < 1" by simp_all
  let ?n = "\<lceil>1 / x\<rceil> - 1"
  from x have "1 < 1 / x" by simp
  then have "2 \<le> \<lceil>1 / x\<rceil>" by linarith
  then have n: "0 < ?n" by simp
  from bitlen_bounds[OF n] have b: "2 ^ nat (bitlen ?n - 1) \<le> ?n" "?n < 2 ^ nat (bitlen ?n)" by auto
  from n have bl: "1 \<le> bitlen ?n" by (simp add: bitlen_alt_def)
  have il: "ilog2 x = - bitlen ?n" using False by (simp add: ilog2_def)
  have "?n + 1 \<le> 2 ^ nat (bitlen ?n)" using b(2) by simp
  then have "of_int (?n + 1) \<le> (2::real) ^ nat (bitlen ?n)" by (metis of_int_le_iff of_int_numeral of_int_power)
  moreover have "1 / x \<le> of_int (?n + 1)" by simp
  ultimately have "1 / x \<le> 2 ^ nat (bitlen ?n)" by linarith
  then have "1 \<le> 2 ^ nat (bitlen ?n) * x" using x by (simp add: field_simps)
  then have "1 / 2 ^ nat (bitlen ?n) \<le> x" by (simp add: field_simps)
  then have 1: "2 powi (ilog2 x) \<le> x" using bl by (simp add: il power_int_def field_simps)
  have "(2::real) ^ nat (bitlen ?n - 1) \<le> of_int ?n" using b(1) by (metis of_int_le_iff of_int_numeral of_int_power)
  also have "of_int ?n < 1 / x" by linarith
  finally have "2 ^ nat (bitlen ?n - 1) * x < 1" using x by (simp add: field_simps)
  then have "x < 1 / 2 ^ nat (bitlen ?n - 1)" by (simp add: field_simps)
  moreover have "2 powi (ilog2 x + 1) = 1 / (2::real) ^ nat (bitlen ?n - 1)"
    using bl by (auto simp: il power_int_def field_simps nat_diff_distrib)
  ultimately have 2: "x < 2 powi (ilog2 x + 1)" by simp
  from 1 2 show ?thesis ..
qed


text \<open>Rounding to an integer: integers stay, the order is kept, and the error is at most
  one half.\<close>

lemma round_even_of_int [simp]: "round_even (of_int n) = n"
  by (simp add: round_even_def)

lemma round_even_mono:
  assumes "x \<le> y"
  shows "round_even x \<le> round_even y"
proof -
  have fl: "\<lfloor>x\<rfloor> \<le> \<lfloor>y\<rfloor>" using assms by (rule floor_mono)
  have up: "round_even x \<le> \<lfloor>x\<rfloor> + 1" by (simp add: round_even_def Let_def)
  have lo: "\<lfloor>y\<rfloor> \<le> round_even y" by (simp add: round_even_def Let_def)
  show ?thesis
  proof (cases "\<lfloor>x\<rfloor> = \<lfloor>y\<rfloor>")
    case False
    with fl have "\<lfloor>x\<rfloor> + 1 \<le> \<lfloor>y\<rfloor>" by simp
    with up lo show ?thesis by linarith
  next
    case True
    with assms have "x - of_int \<lfloor>x\<rfloor> \<le> y - of_int \<lfloor>y\<rfloor>" by simp
    with True show ?thesis by (auto simp: round_even_def Let_def)
  qed
qed

lemma round_even_le: "x \<le> of_int n \<Longrightarrow> round_even x \<le> n"
  using round_even_mono[of x "of_int n"] by simp

lemma round_even_ge: "of_int n \<le> x \<Longrightarrow> n \<le> round_even x"
  using round_even_mono[of "of_int n" x] by simp

text \<open>Rounding to a binary format keeps the order: within one binade because \<open>round_even\<close>
  does, and across binades because the powers of two between them are numbers of the
  format.\<close>

lemma ieee_round_eq:
  "x \<noteq> 0 \<Longrightarrow> ieee_round p emin x = of_int (round_even (x / 2 powi ulp_exp p emin x)) * 2 powi ulp_exp p emin x"
  by (simp add: ieee_round_def)

lemma ulp_exp_upper:
  assumes "x \<noteq> 0"
  shows "\<bar>x\<bar> < 2 powi (ulp_exp p emin x + p)"
proof -
  from assms have "\<bar>x\<bar> < 2 powi (ilog2 \<bar>x\<bar> + 1)" using ilog2_bounds[of "\<bar>x\<bar>"] by simp
  also have "\<dots> \<le> 2 powi (ulp_exp p emin x + p)"
    by (rule power_int_increasing) (simp_all add: ulp_exp_def)
  finally show ?thesis .
qed

lemma ulp_exp_lower:
  assumes "x \<noteq> 0" "emin < ulp_exp p emin x"
  shows "2 powi (ulp_exp p emin x + p - 1) \<le> \<bar>x\<bar>"
proof -
  from assms(2) have e: "ulp_exp p emin x = ilog2 \<bar>x\<bar> - (p - 1)"
    by (auto simp: ulp_exp_def)
  have "(2::real) powi (ulp_exp p emin x + p - 1) = 2 powi (ilog2 \<bar>x\<bar>)"
    by (simp add: e)
  also have "\<dots> \<le> \<bar>x\<bar>" using ilog2_bounds[of "\<bar>x\<bar>"] assms(1) by simp
  finally show ?thesis .
qed

lemma ulp_exp_ge: "emin \<le> ulp_exp p emin x"
  by (simp add: ulp_exp_def)

lemma ilog2_mono:
  assumes "0 < x" "x \<le> y"
  shows "ilog2 x \<le> ilog2 y"
proof (rule ccontr)
  assume "\<not> ilog2 x \<le> ilog2 y"
  then have "ilog2 y + 1 \<le> ilog2 x" by simp
  then have "(2::real) powi (ilog2 y + 1) \<le> 2 powi (ilog2 x)" by (intro power_int_increasing) simp_all
  with ilog2_bounds[of x] ilog2_bounds[of y] assms show False by simp
qed

lemma ulp_exp_mono: "x \<noteq> 0 \<Longrightarrow> \<bar>x\<bar> \<le> \<bar>y\<bar> \<Longrightarrow> ulp_exp p emin x \<le> ulp_exp p emin y"
  using ilog2_mono[of "\<bar>x\<bar>" "\<bar>y\<bar>"] by (simp add: ulp_exp_def)

lemma pow2_pos [simp]: "0 < (2::real) powi e"
  by (simp add: power_int_def)

lemma ieee_round_nonneg: "0 \<le> x \<Longrightarrow> 0 \<le> ieee_round p emin x"
proof (cases "x = 0")
  case True then show ?thesis by (simp add: ieee_round_def)
next
  case False
  assume "0 \<le> x"
  then have "of_int 0 \<le> x / 2 powi ulp_exp p emin x" by simp
  from round_even_ge[OF this] show ?thesis using False by (simp add: ieee_round_eq)
qed

lemma ieee_round_nonpos: "x \<le> 0 \<Longrightarrow> ieee_round p emin x \<le> 0"
proof (cases "x = 0")
  case True then show ?thesis by (simp add: ieee_round_def)
next
  case False
  assume "x \<le> 0"
  then have "x / 2 powi ulp_exp p emin x \<le> of_int 0" by (simp add: divide_le_0_iff)
  from round_even_le[OF this] show ?thesis using False by (simp add: ieee_round_eq mult_le_0_iff)
qed

lemma pow2_int: "0 \<le> p \<Longrightarrow> (2::real) powi p = of_int (2 ^ nat p)"
  by (simp add: power_int_def)

lemma ieee_round_upper:
  assumes p: "1 \<le> p" and x: "0 < x"
  shows "ieee_round p emin x \<le> 2 powi (ulp_exp p emin x + p)"
proof -
  let ?ex = "ulp_exp p emin x"
  have "x / 2 powi ?ex \<le> 2 powi p"
    using ulp_exp_upper[of x p emin] x by (simp add: power_int_add field_simps)
  then have "x / 2 powi ?ex \<le> of_int (2 ^ nat p)" using p by (simp add: pow2_int)
  from round_even_le[OF this] have "of_int (round_even (x / 2 powi ?ex)) \<le> (2::real) powi p"
    using p by (simp add: pow2_int del: of_int_power)
  then have "ieee_round p emin x \<le> 2 powi p * 2 powi ?ex" using x by (simp add: ieee_round_eq)
  also have "\<dots> = 2 powi (?ex + p)" by (simp add: power_int_add)
  finally show ?thesis .
qed

lemma ieee_round_lower:
  assumes p: "1 \<le> p" and x: "0 < x" and e: "emin < ulp_exp p emin x"
  shows "2 powi (ulp_exp p emin x + p - 1) \<le> ieee_round p emin x"
proof -
  let ?ex = "ulp_exp p emin x"
  have "2 powi (?ex + p - 1) \<le> x" using ulp_exp_lower[of x emin p] x e by simp
  moreover have "(2::real) powi (?ex + p - 1) = 2 powi (p - 1) * 2 powi ?ex"
    by (simp add: power_int_add[symmetric] algebra_simps)
  ultimately have "2 powi (p - 1) * 2 powi ?ex \<le> x" by simp
  then have "2 powi (p - 1) \<le> x / 2 powi ?ex" by (simp add: pos_le_divide_eq)
  then have "of_int (2 ^ nat (p - 1)) \<le> x / 2 powi ?ex" using p by (simp add: pow2_int)
  from round_even_ge[OF this] have "(2::real) powi (p - 1) \<le> of_int (round_even (x / 2 powi ?ex))"
    using p by (simp add: pow2_int del: of_int_power)
  then have "2 powi (p - 1) * 2 powi ?ex \<le> ieee_round p emin x" using x by (simp add: ieee_round_eq)
  moreover have "(2::real) powi (p - 1) * 2 powi ?ex = 2 powi (?ex + p - 1)"
    by (simp add: power_int_add[symmetric] algebra_simps)
  ultimately show ?thesis by simp
qed

lemma ieee_round_mono_pos:
  assumes p: "1 \<le> p" and x: "0 < x" and xy: "x \<le> y"
  shows "ieee_round p emin x \<le> ieee_round p emin y"
proof -
  let ?ex = "ulp_exp p emin x" and ?ey = "ulp_exp p emin y"
  from x xy have y: "0 < y" by simp
  have le: "?ex \<le> ?ey" using ulp_exp_mono[of x y] x xy by simp
  show ?thesis
  proof (cases "?ex = ?ey")
    case True
    have "x / 2 powi ?ex \<le> y / 2 powi ?ex" using xy by (simp add: divide_right_mono)
    from round_even_mono[OF this] True x y show ?thesis
      by (simp add: ieee_round_eq)
  next
    case False
    with le have lt: "?ex < ?ey" by simp
    with ulp_exp_ge[of emin p x] have "emin < ?ey" by simp
    note ieee_round_upper[OF p x, of emin]
    also have "(2::real) powi (?ex + p) \<le> 2 powi (?ey + p - 1)"
      by (rule power_int_increasing) (use lt in simp_all)
    also note ieee_round_lower[OF p y \<open>emin < ?ey\<close>]
    finally show ?thesis .
  qed
qed

lemma round_even_minus: "round_even (- x) = - round_even x"
proof (cases "x = of_int \<lfloor>x\<rfloor>")
  case True
  then obtain n where "x = of_int n" ..
  then have "- x = of_int (- n)" by simp
  with \<open>x = of_int n\<close> show ?thesis by (simp only: round_even_of_int)
next
  case False
  then have c: "\<lfloor>- x\<rfloor> = - \<lfloor>x\<rfloor> - 1" by linarith
  have "even (- \<lfloor>x\<rfloor> - 1) \<longleftrightarrow> odd \<lfloor>x\<rfloor>" by simp
  with False c show ?thesis
    by (auto simp: round_even_def Let_def)
qed

lemma ieee_round_minus: "ieee_round p emin (- x) = - ieee_round p emin x"
  by (simp add: ieee_round_def ulp_exp_def round_even_minus)

lemma ieee_round_mono:
  assumes p: "1 \<le> p" and xy: "x \<le> y"
  shows "ieee_round p emin x \<le> ieee_round p emin y"
proof -
  consider "0 < x" | "x \<le> 0" "0 \<le> y" | "y < 0" by linarith
  then show ?thesis
  proof cases
    case 1
    from ieee_round_mono_pos[OF p 1 xy] show ?thesis .
  next
    case 2
    from ieee_round_nonpos[OF 2(1)] ieee_round_nonneg[OF 2(2)] show ?thesis by (rule order_trans)
  next
    case 3
    then have "0 < - y" "- y \<le> - x" using xy by simp_all
    from ieee_round_mono_pos[OF p this] show ?thesis by (simp add: ieee_round_minus)
  qed
qed

lemma double_round_mono: "x \<le> y \<Longrightarrow> double_round x \<le> double_round y"
  unfolding double_round_def by (rule ieee_round_mono) simp

lemma double_add_ge:
  assumes "is_double t" "0 \<le> r"
  shows "t \<le> double_add t r"
proof -
  from assms(1) have "t = double_round t" by (simp add: is_double_def)
  also have "\<dots> \<le> double_round (t + r)" using assms(2) by (intro double_round_mono) simp
  finally show ?thesis by (simp add: double_add_def)
qed

lemma double_add_mono: "x \<le> y \<Longrightarrow> double_add x r \<le> double_add y r"
  unfolding double_add_def by (rule double_round_mono) simp


text \<open>The integer computation of \<open>ilog2\<close> agrees with the logarithm, and a rounded
  number is within half a unit in the last place of the exact one.\<close>

lemma ilog2_floor_log:
  assumes "0 < x"
  shows "ilog2 x = \<lfloor>log 2 x\<rfloor>"
proof -
  from ilog2_bounds[OF assms] have b: "2 powr (of_int (ilog2 x)) \<le> x" "x < 2 powr (of_int (ilog2 x + 1))"
    by (simp_all add: powr_real_of_int' del: of_int_add)
  from b(1) assms have "of_int (ilog2 x) \<le> log 2 x" by (simp add: le_log_iff)
  moreover from b(2) assms have "log 2 x < of_int (ilog2 x) + 1" by (simp add: log_less_iff)
  ultimately show ?thesis by linarith
qed

lemma round_even_error: "\<bar>of_int (round_even y) - y\<bar> \<le> 1 / 2"
  by (auto simp: round_even_def Let_def abs_le_iff)

lemma ieee_round_error: "\<bar>ieee_round p emin x - x\<bar> \<le> 2 powi ulp_exp p emin x / 2"
proof (cases "x = 0")
  case True
  then show ?thesis by (simp add: ieee_round_def)
next
  case False
  let ?u = "(2::real) powi ulp_exp p emin x"
  have "ieee_round p emin x - x = (of_int (round_even (x / ?u)) - x / ?u) * ?u"
    using False by (simp add: ieee_round_def field_simps)
  then have "\<bar>ieee_round p emin x - x\<bar> = \<bar>of_int (round_even (x / ?u)) - x / ?u\<bar> * ?u"
    by (simp add: abs_mult)
  also have "\<dots> \<le> 1 / 2 * ?u" by (intro mult_right_mono round_even_error) simp
  finally show ?thesis by simp
qed

lemma double_add_error:
  "\<bar>double_add x y - (x + y)\<bar> \<le> 2 powi ulp_exp 53 (- 1074) (x + y) / 2"
  unfolding double_add_def double_round_def by (rule ieee_round_error)

text \<open>Evaluation of the rounding functions on numerals.\<close>

lemma bitlen_numeral_eval:
  "bitlen (numeral (Num.Bit0 n)) = bitlen (numeral n) + 1"
  "bitlen (numeral (Num.Bit1 n)) = bitlen (numeral n) + 1"
  "bitlen 1 = 1"
  by (subst compute_bitlen, simp)+

lemmas float_eval = double_add_def double_round_def float_round_def ieee_round_def ulp_exp_def
  ilog2_def round_even_def Let_def bitlen_numeral_eval is_double_def power_int_minus field_simps

lemma float_round_tenth: "float_round (1 / 10) = 13421773 / 134217728"
  by (simp add: float_eval)

lemma double_add_examples:
  "double_add (- 1) 1 = 0" "double_add (- 1) 2 = 1" "double_add 0 1 = 1" "double_add 1 1 = 2"
  by (simp_all add: float_eval)

lemma is_double_0 [simp]: "is_double 0"
  by (simp add: is_double_def double_round_def ieee_round_def)

lemma double_round_examples:
  "double_round (9 / 10) = 8106479329266893 / 9007199254740992"
  "double_round (9 / 20) = 8106479329266893 / 18014398509481984"
  by (simp_all add: float_eval)

lemma double_add_tenth_examples:
  "double_add (- 1) (13421773 / 134217728) = - (120795955 / 134217728)"
  "double_add (8106479329266893 / 9007199254740992) (13421773 / 134217728)
     = 2251799817040691 / 2251799813685248"
  "double_add (8106479329266893 / 18014398509481984) (13421773 / 134217728)
     = 2476979801764659 / 4503599627370496"
  by (simp_all add: float_eval)

lemma is_double_examples:
  "is_double (8106479329266893 / 9007199254740992)"
  "is_double (8106479329266893 / 18014398509481984)"
  by (simp_all add: float_eval)

section \<open>Reliable message channel: sliding window facts and ordered delivery\<close>

lemma length_Store [simp]: "length (Store w seq e) = length w"
  by (simp add: Store_def)

lemma slot_index_Store [simp]: "slot_index (Store w seq e) seq' = slot_index w seq'"
  by (simp add: slot_index_def)

lemma slot_index_less: "0 < length w \<Longrightarrow> slot_index w seq < length w"
  by (simp add: slot_index_def)

lemma set_Store: "set (Store w seq e) \<subseteq> insert e (set w)"
  by (simp add: Store_def set_update_subset_insert)

lemma Find_SomeD:
  "Find w seq = Some e \<Longrightarrow> e = w ! slot_index w seq \<and> valid e \<and> sequence e = seq"
  by (auto simp: Find_def Let_def split: if_splits)

lemma Find_mem: "0 < length w \<Longrightarrow> Find w seq = Some e \<Longrightarrow> e \<in> set w"
  using Find_SomeD[of w seq e] slot_index_less[of w seq] by auto

lemma Find_Store:
  "0 < length w \<Longrightarrow>
   Find (Store w seq e) seq' =
     (if slot_index w seq' = slot_index w seq
      then (if valid e \<and> sequence e = seq' then Some e else None)
      else Find w seq')"
proof -
  assume len: "0 < length w"
  have i: "slot_index w seq < length w" "slot_index w seq' < length w"
    using len by (simp_all add: slot_index_less)
  have s: "slot_index (w[slot_index w seq := e]) seq' = slot_index w seq'"
    by (simp add: slot_index_def)
  show ?thesis
    unfolding Find_def Store_def Let_def s
    using i by (simp add: nth_list_update)
qed

lemma Insert_length: "Insert w e = (b, w') \<Longrightarrow> length w' = length w"
  by (auto simp: Insert_def split: if_splits)

lemma recvq_ok_Store:
  "recvq_ok q \<Longrightarrow> (valid e \<longrightarrow> (\<exists>m. received e = Some m \<and> msg_id m = sequence e)) \<Longrightarrow>
   recvq_ok (Store q seq e)"
  using set_Store[of q seq e] by (auto simp: recvq_ok_def)

lemma sendq_ok_Store:
  "sendq_ok q \<Longrightarrow> (valid e \<longrightarrow> (\<exists>m. message e = Some m \<and> msg_id m = sequence e)) \<Longrightarrow>
   sendq_ok (Store q seq e)"
  using set_Store[of q seq e] by (auto simp: sendq_ok_def)

lemma process_message_recv:
  assumes "recvq_ok (m_receiveQueue s)" "process_message lo hi msg (b, s) = Inr (b', s')"
  shows "recvq_ok (m_receiveQueue s') \<and> m_receiveMessageId s' = m_receiveMessageId s"
  using assms
  by (auto simp: process_message_def Let_def Insert_def ReceiveQueueEntry_new_def
        split: if_splits intro!: recvq_ok_Store)

lemma process_messages_recv:
  "recvq_ok (m_receiveQueue s) \<Longrightarrow> process_messages lo hi msgs (b, s) = Inr (b', s') \<Longrightarrow>
   recvq_ok (m_receiveQueue s') \<and> m_receiveMessageId s' = m_receiveMessageId s"
proof (induction msgs arbitrary: b s)
  case Nil
  then show ?case by simp
next
  case (Cons m msgs)
  from Cons.prems(2) obtain b1 s1 where 1: "process_message lo hi m (b, s) = Inr (b1, s1)"
    and 2: "process_messages lo hi msgs (b1, s1) = Inr (b', s')"
    by (auto split: sum.splits)
  from process_message_recv[OF Cons.prems(1) 1] Cons.IH[OF _ 2] show ?case by simp
qed

lemma ProcessData_recv:
  "recvq_ok (m_receiveQueue s) \<Longrightarrow> ProcessData cfg seq msgs s = Inr (x, s') \<Longrightarrow>
   recvq_ok (m_receiveQueue s') \<and> m_receiveMessageId s' = m_receiveMessageId s"
  using process_messages_recv[of s _ _ msgs False]
  by (auto simp: ProcessData_def Let_def split: sum.splits if_splits)

lemma SendMessage_recv:
  "SendMessage msg s = Inr (x, s') \<Longrightarrow>
   m_receiveQueue s' = m_receiveQueue s \<and> m_receiveMessageId s' = m_receiveMessageId s"
  by (auto simp: SendMessage_def Let_def split: if_splits prod.splits option.splits)

lemma GetData_recv:
  "GetData cfg seq s = Inr (x, s') \<Longrightarrow>
   m_receiveQueue s' = m_receiveQueue s \<and> m_receiveMessageId s' = m_receiveMessageId s"
  by (auto simp: GetData_def Let_def split: if_splits prod.splits option.splits sum.splits)

lemma ProcessAck_recv:
  "ProcessAck ack s = Inr s' \<Longrightarrow>
   m_receiveQueue s' = m_receiveQueue s \<and> m_receiveMessageId s' = m_receiveMessageId s"
  by (auto simp: ProcessAck_def Let_def split: if_splits prod.splits option.splits sum.splits)

lemma ReceiveMessage_cases:
  assumes "recvq_ok (m_receiveQueue s)"
  shows "(Find (m_receiveQueue s) (m_receiveMessageId s) = None \<and> ReceiveMessage s = Inr (None, s)) \<or>
         (\<exists>entry msg s'. Find (m_receiveQueue s) (m_receiveMessageId s) = Some entry \<and>
            received entry = Some msg \<and> msg_id msg = m_receiveMessageId s \<and>
            ReceiveMessage s = Inr (Some msg, s') \<and>
            m_receiveMessageId s' = m_receiveMessageId s + 1 \<and> recvq_ok (m_receiveQueue s'))"
proof (cases "Find (m_receiveQueue s) (m_receiveMessageId s)")
  case None
  then show ?thesis by (simp add: ReceiveMessage_def)
next
  case (Some entry)
  from assms have len: "0 < length (m_receiveQueue s)" by (simp add: recvq_ok_def)
  from Find_mem[OF len Some] Find_SomeD[OF Some] assms
  obtain msg where msg: "received entry = Some msg" "msg_id msg = m_receiveMessageId s"
    by (auto simp: recvq_ok_def)
  have "recvq_ok (Store (m_receiveQueue s) (m_receiveMessageId s) (entry\<lparr>valid := False, received := None\<rparr>))"
    using assms by (intro recvq_ok_Store) simp_all
  with Some msg show ?thesis by (simp add: ReceiveMessage_def Let_def)
qed

lemma step_recv:
  assumes "recvq_ok (m_receiveQueue s)" "step cfg x s = Inr (e, s')"
  shows "recvq_ok (m_receiveQueue s') \<and>
         (case e of
            Delivered m \<Rightarrow> msg_id m = m_receiveMessageId s \<and>
                           m_receiveMessageId s' = m_receiveMessageId s + 1
          | _ \<Rightarrow> m_receiveMessageId s' = m_receiveMessageId s)"
proof (cases x)
  case (DoSendMessage msg)
  with assms SendMessage_recv[of msg s] show ?thesis
    by (auto split: sum.splits option.splits)
next
  case DoReceiveMessage
  with assms ReceiveMessage_cases[OF assms(1)] show ?thesis
    by auto
next
  case (DoGetData seq)
  with assms GetData_recv[of cfg seq s] show ?thesis
    by (auto split: sum.splits option.splits)
next
  case (DoProcessData seq msgs)
  with assms ProcessData_recv[OF assms(1), of cfg seq msgs] show ?thesis
    by (auto split: sum.splits option.splits)
next
  case (DoProcessAck ack)
  with assms ProcessAck_recv[of ack s] show ?thesis
    by (auto split: sum.splits)
next
  case (DoUpdate t)
  with assms show ?thesis by (auto simp: Update_def)
qed

lemma run_recv:
  "recvq_ok (m_receiveQueue s) \<Longrightarrow> run cfg ops s = Inr (evs, s') \<Longrightarrow>
   recvq_ok (m_receiveQueue s') \<and>
   map msg_id (delivered evs) = map (\<lambda>k. m_receiveMessageId s + of_nat k) [0 ..< length (delivered evs)] \<and>
   m_receiveMessageId s' = m_receiveMessageId s + of_nat (length (delivered evs))"
proof (induction ops arbitrary: s evs)
  case Nil
  then show ?case by simp
next
  case (Cons x ops)
  from Cons.prems(2) obtain e s1 es where 1: "step cfg x s = Inr (e, s1)"
    and 2: "run cfg ops s1 = Inr (es, s')" and evs: "evs = e # es"
    by (auto split: sum.splits prod.splits)
  note st = step_recv[OF Cons.prems(1) 1]
  note ih = Cons.IH[OF conjunct1[OF st] 2]
  show ?case
  proof (cases "\<exists>m. e = Delivered m")
    case True
    then obtain m where e: "e = Delivered m" by blast
    with st have m: "msg_id m = m_receiveMessageId s" "m_receiveMessageId s1 = m_receiveMessageId s + 1"
      by simp_all
    have up: "[0 ..< Suc (length (delivered es))] = 0 # map Suc [0 ..< length (delivered es)]"
      by (simp add: upt_conv_Cons map_Suc_upt del: upt_Suc)
    show ?thesis
      using ih m by (simp add: evs e up comp_def add.assoc del: upt_Suc)
  next
    case False
    then have d: "delivered (e # es) = delivered es" by (cases e) auto
    from False st have "m_receiveMessageId s1 = m_receiveMessageId s" by (cases e) auto
    with ih show ?thesis by (simp add: evs d)
  qed
qed

lemma ReliableMessageChannel_new_recv:
  assumes "ReliableMessageChannel_new K cfg = Inr s0" "0 < receiveQueueSize cfg"
  shows "recvq_ok (m_receiveQueue s0) \<and> m_receiveMessageId s0 = 0"
  using assms
  by (auto simp: ReliableMessageChannel_new_def Let_def recvq_ok_def SlidingWindow_new_def
        ReceiveQueueEntry_empty_def split: if_splits)

text \<open>
  Claim C1. Whatever operations the host runs on a new channel, the messages that
  \<open>ReceiveMessage\<close> has returned carry the ids 0, 1, 2, ... (modulo 2^16) in this order,
  without gap or repetition, and \<open>m_receiveMessageId\<close> is their number. In the state
  reached, \<open>ReceiveMessage\<close> fails no assertion: it returns \<open>nullptr\<close> and changes
  nothing when the receive queue has no entry for \<open>m_receiveMessageId\<close>, and otherwise it
  returns the message of that entry, whose id is \<open>m_receiveMessageId\<close>, and adds one to
  \<open>m_receiveMessageId\<close>.
\<close>

theorem ordered_delivery:
  assumes "ReliableMessageChannel_new K cfg = Inr s0" and "0 < receiveQueueSize cfg"
    and "run cfg ops s0 = Inr (evs, s)"
  shows "map msg_id (delivered evs) = map word_of_nat [0 ..< length (delivered evs)]
     \<and> m_receiveMessageId s = word_of_nat (length (delivered evs))
     \<and> ((Find (m_receiveQueue s) (m_receiveMessageId s) = None \<and> ReceiveMessage s = Inr (None, s)) \<or>
         (\<exists>entry msg s'. Find (m_receiveQueue s) (m_receiveMessageId s) = Some entry \<and>
            received entry = Some msg \<and> msg_id msg = m_receiveMessageId s \<and>
            ReceiveMessage s = Inr (Some msg, s') \<and>
            m_receiveMessageId s' = m_receiveMessageId s + 1))"
proof -
  note 0 = ReliableMessageChannel_new_recv[OF assms(1,2)]
  note r = run_recv[OF conjunct1[OF 0] assms(3)]
  from ReceiveMessage_cases[OF conjunct1[OF r]] r 0 show ?thesis
    by auto
qed

lemmas channel_eval =
  Let_def SendQueueEntry_empty_def SentPacketEntry_empty_def ReceiveQueueEntry_empty_def
  SendQueueEntry_new_def ReceiveQueueEntry_new_def
  HasSlotAvailable_def Insert_def InsertFast_def Find_def Store_def slot_index_def
  sequence_less_than_def sequence_greater_than_def
  SendMessage_def ReceiveMessage_def GetData_def gather_step_def ProcessData_def
  process_message_def ProcessAck_def Update_def example_config_def example_message_def
  example_channel_def numeral_2_eq_2[symmetric] unsigned_minus_1_eq_mask mask_eq_exp_minus_1
  double_add_examples

lemma bits_required_3: "bits_required 0 3 = 2"
  by (simp add: bits_required_def)

lemma replicate_2: "replicate 2 x = [x, x]"
  by (simp add: numeral_2_eq_2)

lemma example_new: "ReliableMessageChannel_new 64 example_config = Inr example_channel"
  by (simp add: ReliableMessageChannel_new_def SlidingWindow_new_def bits_required_3 replicate_2
        example_config_def example_channel_def)

lemma example_run_receive:
  "\<exists>evs s. run example_config
            [DoProcessData 0 [example_message 1, example_message 0], DoReceiveMessage,
             DoReceiveMessage, DoReceiveMessage] example_channel = Inr (evs, s)
      \<and> delivered evs = [example_message 0, example_message 1]"
  by (simp add: channel_eval)

theorem ordered_delivery_witness:
  "\<exists>evs s. ReliableMessageChannel_new 64 example_config = Inr example_channel
      \<and> 0 < receiveQueueSize example_config
      \<and> run example_config
            [DoProcessData 0 [example_message 1, example_message 0], DoReceiveMessage,
             DoReceiveMessage, DoReceiveMessage] example_channel = Inr (evs, s)
      \<and> delivered evs = [example_message 0, example_message 1]
      \<and> map msg_id (delivered evs) = map word_of_nat [0 ..< length (delivered evs)]
      \<and> m_receiveMessageId s = word_of_nat (length (delivered evs))"
proof -
  obtain evs s where run: "run example_config
            [DoProcessData 0 [example_message 1, example_message 0], DoReceiveMessage,
             DoReceiveMessage, DoReceiveMessage] example_channel = Inr (evs, s)"
      "delivered evs = [example_message 0, example_message 1]"
    using example_run_receive by blast
  have sz: "0 < receiveQueueSize example_config" by (simp add: example_config_def)
  from ordered_delivery[OF example_new sz run(1)] run example_new sz show ?thesis by blast
qed

section \<open>Reliable message channel: what GetData selects\<close>

lemma Store_Store [simp]: "Store (Store w seq e) seq e' = Store w seq e'"
  by (simp add: Store_def slot_index_def)

lemma gather_step_cases:
  assumes "gather_step cfg now mid (a, ids, q) = Inr (a', ids', q')"
  shows "(a' = a \<and> ids' = ids \<and> q' = q) \<or>
         (\<exists>e. Find q mid = Some e \<and> double_add (timeLastSent e) (resendRate cfg) \<le> now \<and>
              0 \<le> a - uint (measuredBits e) \<and> int (length ids) < maxMessagesPerPacket cfg \<and>
              a' = a - uint (measuredBits e) \<and> ids' = ids @ [mid] \<and>
              q' = Store q mid (e\<lparr>timeLastSent := now\<rparr>))"
  using assms by (auto simp: gather_step_def split: option.splits if_splits)

lemma gathered_refl: "gathered cfg now q [] q a a"
  by (simp add: gathered_def)

lemma nth_Store:
  "k < length w \<Longrightarrow> Store w seq e ! k = (if k = slot_index w seq then e else w ! k)"
  by (simp add: Store_def nth_list_update)

lemma gathered_step:
  assumes len: "0 < length q"
    and e: "Find q mid = Some e" "double_add (timeLastSent e) (resendRate cfg) \<le> now" "0 \<le> a - uint (measuredBits e)"
    and rest: "gathered cfg now (Store q mid (e\<lparr>timeLastSent := now\<rparr>)) new q' (a - uint (measuredBits e)) a'"
  shows "gathered cfg now q (mid # new) q' a a'"
proof -
  let ?q1 = "Store q mid (e\<lparr>timeLastSent := now\<rparr>)"
  let ?i = "slot_index q mid"
  note eD = Find_SomeD[OF e(1)]
  have i: "?i < length q" using len by (rule slot_index_less)
  have q1i: "?q1 ! ?i = e\<lparr>timeLastSent := now\<rparr>" using i by (simp add: nth_Store)
  have q1k: "?q1 ! k = q ! k" if "k < length q" "k \<noteq> ?i" for k using that by (simp add: nth_Store)
  have bits: "measuredBits (?q1 ! k) = measuredBits (q ! k)" if "k < length q" for k
    using that eD by (cases "k = ?i") (simp_all add: nth_Store)
  from rest have L: "length q' = length q" by (simp add: gathered_def)
  have slots: "q' ! k = q ! k \<or>
        (q' ! k = (q ! k)\<lparr>timeLastSent := now\<rparr> \<and> valid (q ! k) \<and> sequence (q ! k) \<in> set (mid # new) \<and>
         slot_index q (sequence (q ! k)) = k)" if k: "k < length q" for k
  proof (cases "k = ?i")
    case True
    from rest k have "q' ! k = ?q1 ! k \<or> q' ! k = (?q1 ! k)\<lparr>timeLastSent := now\<rparr>"
      by (auto simp: gathered_def)
    with True q1i eD show ?thesis by auto
  next
    case False
    from rest k q1k[OF k False] show ?thesis by (auto simp: gathered_def)
  qed
  have found: "\<exists>e0. Find q mid' = Some e0 \<and> double_add (timeLastSent e0) (resendRate cfg) \<le> now \<and>
        Find q' mid' = Some (e0\<lparr>timeLastSent := now\<rparr>)" if mid': "mid' \<in> set (mid # new)" for mid'
  proof (cases "mid' = mid")
    case True
    from rest i have "q' ! ?i = ?q1 ! ?i \<or> q' ! ?i = (?q1 ! ?i)\<lparr>timeLastSent := now\<rparr>"
      by (auto simp: gathered_def)
    with q1i have "q' ! ?i = e\<lparr>timeLastSent := now\<rparr>" by auto
    then have "Find q' mid = Some (e\<lparr>timeLastSent := now\<rparr>)"
      using eD L by (auto simp: Find_def slot_index_def)
    with True e show ?thesis by simp
  next
    case False
    with mid' have "mid' \<in> set new" by simp
    with rest obtain e1 where e1: "Find ?q1 mid' = Some e1" "double_add (timeLastSent e1) (resendRate cfg) \<le> now"
      "Find q' mid' = Some (e1\<lparr>timeLastSent := now\<rparr>)"
      by (auto simp: gathered_def)
    have "slot_index q mid' \<noteq> ?i"
    proof
      assume "slot_index q mid' = ?i"
      with e1(1) len eD have "mid' = mid" by (auto simp: Find_Store split: if_splits)
      with False show False by simp
    qed
    with e1(1) len have "Find q mid' = Some e1" by (simp add: Find_Store)
    with e1 show ?thesis by blast
  qed
  have sum: "(\<Sum>x \<leftarrow> new. uint (measuredBits (?q1 ! slot_index ?q1 x)))
             = (\<Sum>x \<leftarrow> new. uint (measuredBits (q ! slot_index q x)))"
    using bits slot_index_less[OF len] by simp
  from rest have "a' + (\<Sum>x \<leftarrow> new. uint (measuredBits (?q1 ! slot_index ?q1 x))) = a - uint (measuredBits e)"
    by (simp add: gathered_def)
  with sum eD have total: "a' + (\<Sum>x \<leftarrow> mid # new. uint (measuredBits (q ! slot_index q x))) = a"
    by simp
  have pos: "0 \<le> a'"
  proof (cases "new = []")
    case True
    with rest have "a' = a - uint (measuredBits e)" by (simp add: gathered_def)
    with e(3) show ?thesis by simp
  next
    case False
    with rest show ?thesis by (simp add: gathered_def)
  qed
  show ?thesis
    unfolding gathered_def using L slots found total pos by blast
qed

lemma gather_gathered:
  "0 < length q \<Longrightarrow> gather cfg now oldest idx (a, ids, q) = Inr (a', ids', q') \<Longrightarrow>
   \<exists>new. ids' = ids @ new \<and> gathered cfg now q new q' a a' \<and>
     (int (length ids) \<le> maxMessagesPerPacket cfg \<longrightarrow> int (length ids') \<le> maxMessagesPerPacket cfg)"
proof (induction idx arbitrary: a ids q)
  case Nil
  then show ?case by (simp add: gathered_refl)
next
  case (Cons i idx)
  show ?case
  proof (cases "a < giveUpBits cfg")
    case True
    with Cons.prems show ?thesis by (simp add: gathered_refl)
  next
    case False
    with Cons.prems(2) obtain a1 ids1 q1 where
      st: "gather_step cfg now (oldest + of_nat i) (a, ids, q) = Inr (a1, ids1, q1)"
      and rest: "(if int (length ids1) = maxMessagesPerPacket cfg then Inr (a1, ids1, q1)
                  else gather cfg now oldest idx (a1, ids1, q1)) = Inr (a', ids', q')"
      by (auto split: sum.splits)
    from gather_step_cases[OF st] show ?thesis
    proof (elim disjE conjE exE)
      assume same: "a1 = a" "ids1 = ids" "q1 = q"
      show ?thesis
      proof (cases "int (length ids1) = maxMessagesPerPacket cfg")
        case True
        with rest same show ?thesis by (simp add: gathered_refl)
      next
        case False
        with rest same Cons.IH[OF Cons.prems(1), of a ids] show ?thesis by simp
      qed
    next
      fix e
      assume e: "Find q (oldest + of_nat i) = Some e" "double_add (timeLastSent e) (resendRate cfg) \<le> now"
        "0 \<le> a - uint (measuredBits e)" "int (length ids) < maxMessagesPerPacket cfg"
        and r: "a1 = a - uint (measuredBits e)" "ids1 = ids @ [oldest + of_nat i]"
        "q1 = Store q (oldest + of_nat i) (e\<lparr>timeLastSent := now\<rparr>)"
      have len1: "0 < length q1" using Cons.prems(1) r by simp
      have "\<exists>new. ids' = ids1 @ new \<and> gathered cfg now q1 new q' a1 a' \<and>
              int (length ids') \<le> maxMessagesPerPacket cfg"
      proof (cases "int (length ids1) = maxMessagesPerPacket cfg")
        case True
        with rest show ?thesis by (auto simp: gathered_refl)
      next
        case False
        with e(4) r(2) have "int (length ids1) \<le> maxMessagesPerPacket cfg" by simp
        with False rest Cons.IH[OF len1, of a1 ids1] show ?thesis by auto
      qed
      then obtain new where new: "ids' = ids1 @ new" "gathered cfg now q1 new q' a1 a'"
        "int (length ids') \<le> maxMessagesPerPacket cfg" by blast
      from gathered_step[OF Cons.prems(1) e(1,2,3) new(2)[unfolded r]] new r
      show ?thesis by auto
    qed
  qed
qed

lemma collect_messages_all2:
  "collect_messages q ids = Inr msgs \<Longrightarrow>
   list_all2 (\<lambda>x m. \<exists>e. Find q x = Some e \<and> message e = Some m) ids msgs"
proof (induction ids arbitrary: msgs)
  case Nil
  then show ?case by simp
next
  case (Cons x ids)
  then show ?case by (auto split: option.splits sum.splits)
qed

lemma GetData_cases:
  assumes len: "0 < length (m_sendQueue s)" and G: "GetData cfg seq s = Inr (r, s')"
  shows "\<exists>ids a'. gathered cfg (m_timeBase s) (m_sendQueue s) ids (m_sendQueue s') (packetBudget cfg * 8) a'
           \<and> m_timeBase s' = m_timeBase s \<and> m_sendMessageId s' = m_sendMessageId s
           \<and> m_sentPackets s' =
                 (if r = None then m_sentPackets s
                  else InsertFast (m_sentPackets s) seq
                         (SentPacketEntry_empty\<lparr>acked := False, timeSent := m_timeBase s, messageIds := ids\<rparr>))
           \<and> (case r of None \<Rightarrow> True
               | Some msgs \<Rightarrow> ids \<noteq> [] \<and> int (length ids) \<le> maxMessagesPerPacket cfg \<and>
                   collect_messages (m_sendQueue s') ids = Inr msgs)"
proof -
  obtain found oldest where fo:
    "find_oldest (m_sendQueue s) (m_sendMessageId s - word_of_int (sendQueueSize cfg))
       [0 ..< nat (sendQueueSize cfg)] (False, 0) = (found, oldest)"
    by (cases "find_oldest (m_sendQueue s) (m_sendMessageId s - word_of_int (sendQueueSize cfg))
       [0 ..< nat (sendQueueSize cfg)] (False, 0)")
  show ?thesis
  proof (cases found)
    case False
    with G fo have "r = None" "s' = s" by (simp_all add: GetData_def)
    then show ?thesis
      using gathered_refl[of cfg "m_timeBase s" "m_sendQueue s" "packetBudget cfg * 8"]
      by (auto intro!: exI[of _ "[]"])
  next
    case True
    with G fo obtain a' ids q' where
      g: "gather cfg (m_timeBase s) oldest [0 ..< nat (receiveQueueSize cfg)]
            (packetBudget cfg * 8, [], m_sendQueue s) = Inr (a', ids, q')"
      by (auto simp: GetData_def split: sum.splits)
    from gather_gathered[OF len g]
    have gd: "gathered cfg (m_timeBase s) (m_sendQueue s) ids q' (packetBudget cfg * 8) a'"
      by simp
    from G fo True g have le: "int (length ids) \<le> maxMessagesPerPacket cfg"
      by (auto simp: GetData_def split: if_splits)
    show ?thesis
    proof (cases "ids = []")
      case True
      with G fo \<open>found\<close> g le have "r = None" "s' = s\<lparr>m_sendQueue := q'\<rparr>"
        by (simp_all add: GetData_def)
      with gd le True show ?thesis by (auto intro!: exI[of _ "[]"])
    next
      case False
      with G fo \<open>found\<close> g le obtain msgs where
        c: "collect_messages q' ids = Inr msgs" and r: "r = Some msgs"
        and s': "s' = s\<lparr>m_sendQueue := q',
                   m_sentPackets := InsertFast (m_sentPackets s) seq
                         (SentPacketEntry_empty\<lparr>acked := False, timeSent := m_timeBase s, messageIds := ids\<rparr>),
                   m_counters := (m_counters s)\<lparr>MessagesWritten :=
                       MessagesWritten (m_counters s) + word_of_nat (length ids)\<rparr>\<rparr>"
        by (auto simp: GetData_def Let_def split: sum.splits)
      with gd le False show ?thesis by (auto intro!: exI[of _ ids])
    qed
  qed
qed

text \<open>
  Claim C2. A payload that \<open>GetData\<close> returns has at most \<open>maxMessagesPerPacket\<close>
  messages, and they are the messages of valid entries of the send queue whose
  \<open>measuredBits\<close> sum up to at most \<open>packetBudget * 8\<close>.
\<close>

theorem GetData_budget:
  assumes "0 < length (m_sendQueue s)" and "GetData cfg seq s = Inr (Some msgs, s')"
  shows "int (length msgs) \<le> maxMessagesPerPacket cfg \<and>
         (\<exists>es. list_all2 (\<lambda>e m. valid e \<and> message e = Some m) es msgs \<and>
               set es \<subseteq> set (m_sendQueue s') \<and>
               (\<Sum>e \<leftarrow> es. uint (measuredBits e)) \<le> packetBudget cfg * 8)"
proof -
  let ?q = "m_sendQueue s" and ?q' = "m_sendQueue s'"
  from GetData_cases[OF assms] obtain ids a' where
    g: "gathered cfg (m_timeBase s) ?q ids ?q' (packetBudget cfg * 8) a'"
    and ne: "ids \<noteq> []" and le: "int (length ids) \<le> maxMessagesPerPacket cfg"
    and c: "collect_messages ?q' ids = Inr msgs"
    by auto
  note all2 = collect_messages_all2[OF c]
  from g have L: "length ?q' = length ?q" by (simp add: gathered_def)
  with assms(1) have len': "0 < length ?q'" by simp
  let ?es = "map (\<lambda>x. ?q' ! slot_index ?q' x) ids"
  have 1: "list_all2 (\<lambda>e m. valid e \<and> message e = Some m) ?es msgs"
    using all2 by (auto simp: list_all2_map1 dest: Find_SomeD elim!: list_all2_mono)
  have 2: "set ?es \<subseteq> set ?q'" using slot_index_less[OF len'] by auto
  have bits: "measuredBits (?q' ! slot_index ?q' x) = measuredBits (?q ! slot_index ?q x)" for x
  proof -
    have k: "slot_index ?q x < length ?q" using assms(1) by (rule slot_index_less)
    have "slot_index ?q' x = slot_index ?q x" using L by (simp add: slot_index_def)
    moreover from g k have "measuredBits (?q' ! slot_index ?q x) = measuredBits (?q ! slot_index ?q x)"
      by (auto simp: gathered_def)
    ultimately show ?thesis by simp
  qed
  from g ne have "a' + (\<Sum>x \<leftarrow> ids. uint (measuredBits (?q ! slot_index ?q x))) = packetBudget cfg * 8"
    and "0 \<le> a'" by (simp_all add: gathered_def)
  then have 3: "(\<Sum>e \<leftarrow> ?es. uint (measuredBits e)) \<le> packetBudget cfg * 8"
    by (simp add: bits comp_def)
  from all2 le have "int (length msgs) \<le> maxMessagesPerPacket cfg"
    by (simp add: list_all2_lengthD)
  with 1 2 3 show ?thesis by blast
qed

lemma upt_0_2: "[0 ..< 2] = [0, Suc 0]"
  by (simp add: numeral_2_eq_2)

lemmas GetData_eval = channel_eval upt_0_2

lemma example_run_send:
  "\<exists>evs s. run example_config [DoSendMessage (example_message 5), DoSendMessage (example_message 5)]
       example_channel = Inr (evs, s) \<and> 0 < length (m_sendQueue s) \<and>
     (\<exists>s'. GetData example_config 7 s =
        Inr (Some [example_message 0, example_message 1], s'))"
  by (simp add: GetData_eval)

theorem GetData_budget_witness:
  "\<exists>s s'. 0 < length (m_sendQueue s) \<and>
     GetData example_config 7 s = Inr (Some [example_message 0, example_message 1], s') \<and>
     int (length [example_message 0, example_message 1]) \<le> maxMessagesPerPacket example_config \<and>
     (\<exists>es. list_all2 (\<lambda>e m. valid e \<and> message e = Some m) es [example_message 0, example_message 1] \<and>
           set es \<subseteq> set (m_sendQueue s') \<and>
           (\<Sum>e \<leftarrow> es. uint (measuredBits e)) \<le> packetBudget example_config * 8)"
proof -
  from example_run_send obtain s s' where
    1: "0 < length (m_sendQueue s)"
    and 2: "GetData example_config 7 s = Inr (Some [example_message 0, example_message 1], s')"
    by blast
  from GetData_budget[OF 1 2] 1 2 show ?thesis by blast
qed

section \<open>Reliable message channel: acknowledgements\<close>

lemma released_refl: "released q [] q"
  by (simp add: released_def)

lemma released_invalid:
  "released q ids q' \<Longrightarrow> k < length q \<Longrightarrow> \<not> valid (q ! k) \<Longrightarrow> q' ! k = q ! k"
  by (auto simp: released_def)

lemma released_Find_None:
  assumes "released q ids q'" "Find q x = None"
  shows "Find q' x = None"
proof (cases "0 < length q")
  case False
  with assms show ?thesis by (simp add: released_def)
next
  case True
  let ?k = "slot_index q x"
  have k: "?k < length q" using True by (rule slot_index_less)
  have s: "slot_index q' x = ?k" using assms(1) by (simp add: released_def slot_index_def)
  from assms(1) k have "q' ! ?k = q ! ?k \<or> \<not> valid (q' ! ?k)"
    by (auto simp: released_def)
  with assms(2) s show ?thesis by (auto simp: Find_def Let_def split: if_splits)
qed

lemma released_step:
  assumes len: "0 < length q" and e: "Find q x = Some e"
    and rest: "released (Store q x (e\<lparr>valid := False, message := None\<rparr>)) ids q'"
  shows "released q (x # ids) q'"
proof -
  let ?q1 = "Store q x (e\<lparr>valid := False, message := None\<rparr>)"
  let ?i = "slot_index q x"
  note eD = Find_SomeD[OF e]
  have i: "?i < length q" using len by (rule slot_index_less)
  have L: "length q' = length q" using rest by (simp add: released_def)
  have slots: "q' ! k = q ! k \<or>
        (valid (q ! k) \<and> sequence (q ! k) \<in> set (x # ids) \<and>
         q' ! k = (q ! k)\<lparr>valid := False, message := None\<rparr>)" if k: "k < length q" for k
  proof (cases "k = ?i")
    case True
    have "\<not> valid (?q1 ! k)" using True i by (simp add: nth_Store)
    from released_invalid[OF rest _ this] k have "q' ! k = ?q1 ! k" by simp
    with True i eD show ?thesis by (auto simp: nth_Store)
  next
    case False
    with k have "?q1 ! k = q ! k" by (simp add: nth_Store)
    with rest k show ?thesis by (auto simp: released_def)
  qed
  have "Find ?q1 x = None" using len by (simp add: Find_Store)
  from released_Find_None[OF rest this] rest
  have "\<forall>y \<in> set (x # ids). Find q' y = None" by (simp add: released_def)
  with L slots show ?thesis unfolding released_def by blast
qed

lemma ack_messages_released:
  "0 < length q \<Longrightarrow> ack_messages ids q = Inr q' \<Longrightarrow> released q ids q'"
proof (induction ids arbitrary: q)
  case Nil
  then show ?case by (simp add: released_refl)
next
  case (Cons x ids)
  show ?case
  proof (cases "Find q x")
    case None
    with Cons.prems have "ack_messages ids q = Inr q'" by simp
    from Cons.IH[OF Cons.prems(1) this] have r: "released q ids q'" .
    from released_Find_None[OF r None] r show ?thesis unfolding released_def by auto
  next
    case (Some e)
    with Cons.prems(2) have "ack_messages ids (Store q x (e\<lparr>valid := False, message := None\<rparr>)) = Inr q'"
      by (auto split: option.splits if_splits)
    from Cons.IH[OF _ this] Cons.prems(1)
    have "released (Store q x (e\<lparr>valid := False, message := None\<rparr>)) ids q'" by simp
    from released_step[OF Cons.prems(1) Some this] show ?thesis .
  qed
qed

lemma ack_messages_ok:
  "sendq_ok q \<Longrightarrow> \<exists>q'. ack_messages ids q = Inr q' \<and> sendq_ok q'"
proof (induction ids arbitrary: q)
  case Nil
  then show ?case by simp
next
  case (Cons x ids)
  from Cons.prems have len: "0 < length q" by (simp add: sendq_ok_def)
  show ?case
  proof (cases "Find q x")
    case None
    with Cons.IH[OF Cons.prems] show ?thesis by simp
  next
    case (Some e)
    from Find_mem[OF len Some] Find_SomeD[OF Some] Cons.prems
    obtain m where m: "message e = Some m" "msg_id m = x" by (auto simp: sendq_ok_def)
    have "sendq_ok (Store q x (e\<lparr>valid := False, message := None\<rparr>))"
      using Cons.prems by (intro sendq_ok_Store) simp_all
    from Cons.IH[OF this] Some m show ?thesis by simp
  qed
qed

lemma released_sendq_ok: "released q ids q' \<Longrightarrow> sendq_ok q \<Longrightarrow> sendq_ok q'"
proof -
  assume r: "released q ids q'" and ok: "sendq_ok q"
  have "\<exists>m. message e = Some m \<and> msg_id m = sequence e" if "e \<in> set q'" "valid e" for e
  proof -
    from that(1) obtain k where k: "k < length q'" "e = q' ! k" by (auto simp: in_set_conv_nth)
    with r have "k < length q" by (simp add: released_def)
    with r k that(2) have "e = q ! k" by (auto simp: released_def)
    with \<open>k < length q\<close> ok that(2) show ?thesis by (auto simp: sendq_ok_def)
  qed
  with r ok show ?thesis by (auto simp: sendq_ok_def released_def)
qed

lemma ProcessAck_cases:
  assumes ok: "sendq_ok (m_sendQueue s)"
  shows "(case Find (m_sentPackets s) ack of
            None \<Rightarrow> ProcessAck ack s = Inr s
          | Some p \<Rightarrow>
              if acked p then ProcessAck ack s = Inr s
              else \<exists>q'. released (m_sendQueue s) (messageIds p) q' \<and> sendq_ok q' \<and>
                     ProcessAck ack s =
                       Inr (s\<lparr>m_sendQueue := q',
                              m_sentPackets := Store (m_sentPackets s) ack (p\<lparr>acked := True\<rparr>)\<rparr>))"
proof (cases "Find (m_sentPackets s) ack")
  case None
  then show ?thesis by (simp add: ProcessAck_def)
next
  case (Some p)
  show ?thesis
  proof (cases "acked p")
    case True
    with Some show ?thesis by (simp add: ProcessAck_def)
  next
    case False
    from ack_messages_ok[OF ok, of "messageIds p"] obtain q' where
      q': "ack_messages (messageIds p) (m_sendQueue s) = Inr q'" "sendq_ok q'" by blast
    from ok have "0 < length (m_sendQueue s)" by (simp add: sendq_ok_def)
    from ack_messages_released[OF this q'(1)] q' Some False show ?thesis
      by (auto simp: ProcessAck_def)
  qed
qed

text \<open>
  Claim C6. In a state whose send queue is well formed, let the sent-packet entry of packet
  \<open>p\<close> be there, not yet acked, and contain the message id \<open>i\<close>. Then \<open>ProcessAck p\<close>
  fails no assertion, and afterwards the send queue has no entry for \<open>i\<close>; an entry that it
  had for \<open>i\<close> is still in its slot, with \<open>valid\<close> cleared and the message dropped.
  \<open>ProcessAck p\<close> once more changes nothing, and \<open>ProcessAck\<close> of any packet \<open>p'\<close> leaves
  the send queue without an entry for \<open>i\<close> and every invalid slot as it is. \<open>ProcessAck\<close>
  of a packet without sent-packet entry changes nothing.
\<close>

theorem ProcessAck_releases:
  assumes ok: "sendq_ok (m_sendQueue s)" and len: "0 < length (m_sentPackets s)"
  shows "(\<forall>e i. Find (m_sentPackets s) p = Some e \<and> \<not> acked e \<and> i \<in> set (messageIds e) \<longrightarrow>
            (\<exists>s'. ProcessAck p s = Inr s' \<and> Find (m_sendQueue s') i = None \<and>
               (\<forall>en. Find (m_sendQueue s) i = Some en \<longrightarrow>
                  m_sendQueue s' ! slot_index (m_sendQueue s) i = en\<lparr>valid := False, message := None\<rparr>) \<and>
               ProcessAck p s' = Inr s' \<and>
               (\<forall>p'. \<exists>s''. ProcessAck p' s' = Inr s'' \<and> Find (m_sendQueue s'') i = None \<and>
                  (\<forall>k < length (m_sendQueue s'). \<not> valid (m_sendQueue s' ! k) \<longrightarrow>
                     m_sendQueue s'' ! k = m_sendQueue s' ! k))))
       \<and> (Find (m_sentPackets s) p = None \<longrightarrow> ProcessAck p s = Inr s)"
proof (intro conjI allI impI)
  assume "Find (m_sentPackets s) p = None"
  then show "ProcessAck p s = Inr s" by (simp add: ProcessAck_def)
next
  fix e i
  assume h: "Find (m_sentPackets s) p = Some e \<and> \<not> acked e \<and> i \<in> set (messageIds e)"
  let ?q = "m_sendQueue s"
  from ProcessAck_cases[OF ok, of p] h obtain q' where
    r: "released ?q (messageIds e) q'" and ok': "sendq_ok q'"
    and P: "ProcessAck p s = Inr (s\<lparr>m_sendQueue := q',
               m_sentPackets := Store (m_sentPackets s) p (e\<lparr>acked := True\<rparr>)\<rparr>)"
    by auto
  let ?s' = "s\<lparr>m_sendQueue := q', m_sentPackets := Store (m_sentPackets s) p (e\<lparr>acked := True\<rparr>)\<rparr>"
  from r h have none: "Find q' i = None" by (simp add: released_def)
  have slot: "q' ! slot_index ?q i = en\<lparr>valid := False, message := None\<rparr>"
    if en: "Find ?q i = Some en" for en
  proof -
    from ok have l: "0 < length ?q" by (simp add: sendq_ok_def)
    let ?k = "slot_index ?q i"
    have k: "?k < length ?q" using l by (rule slot_index_less)
    note enD = Find_SomeD[OF en]
    have "q' ! ?k \<noteq> ?q ! ?k"
    proof
      assume "q' ! ?k = ?q ! ?k"
      moreover have "slot_index q' i = ?k" using r by (simp add: released_def slot_index_def)
      ultimately have "Find q' i = Some en" using enD by (auto simp: Find_def)
      with none show False by simp
    qed
    with r k enD show ?thesis by (auto simp: released_def)
  qed
  have again: "ProcessAck p ?s' = Inr ?s'"
  proof -
    from Find_SomeD[OF conjunct1[OF h]] have "valid e" "sequence e = p" by blast+
    then have "Find (m_sentPackets ?s') p = Some (e\<lparr>acked := True\<rparr>)"
      using len by (simp add: Find_Store)
    then show ?thesis by (simp add: ProcessAck_def)
  qed
  have later: "\<exists>s''. ProcessAck p' ?s' = Inr s'' \<and> Find (m_sendQueue s'') i = None \<and>
      (\<forall>k < length (m_sendQueue ?s'). \<not> valid (m_sendQueue ?s' ! k) \<longrightarrow>
          m_sendQueue s'' ! k = m_sendQueue ?s' ! k)" for p'
  proof -
    have ok2: "sendq_ok (m_sendQueue ?s')" using ok' by simp
    show ?thesis
    proof (cases "Find (m_sentPackets ?s') p'")
      case None
      with ProcessAck_cases[OF ok2, of p'] none show ?thesis by auto
    next
      case (Some e')
      show ?thesis
      proof (cases "acked e'")
        case True
        with Some ProcessAck_cases[OF ok2, of p'] none show ?thesis by auto
      next
        case False
        with Some ProcessAck_cases[OF ok2, of p'] obtain q'' where
          r2: "released q' (messageIds e') q''"
          and P2: "ProcessAck p' ?s' = Inr (?s'\<lparr>m_sendQueue := q'',
               m_sentPackets := Store (m_sentPackets ?s') p' (e'\<lparr>acked := True\<rparr>)\<rparr>)"
          by auto
        from released_Find_None[OF r2 none] released_invalid[OF r2] P2 show ?thesis by auto
      qed
    qed
  qed
  from P none slot again later
  show "\<exists>s'. ProcessAck p s = Inr s' \<and> Find (m_sendQueue s') i = None \<and>
               (\<forall>en. Find (m_sendQueue s) i = Some en \<longrightarrow>
                  m_sendQueue s' ! slot_index (m_sendQueue s) i = en\<lparr>valid := False, message := None\<rparr>) \<and>
               ProcessAck p s' = Inr s' \<and>
               (\<forall>p'. \<exists>s''. ProcessAck p' s' = Inr s'' \<and> Find (m_sendQueue s'') i = None \<and>
                  (\<forall>k < length (m_sendQueue s'). \<not> valid (m_sendQueue s' ! k) \<longrightarrow>
                     m_sendQueue s'' ! k = m_sendQueue s' ! k))"
    by (intro exI[of _ ?s']) simp
qed

lemma example_run_packet:
  "\<exists>evs s e. run example_config
       [DoSendMessage (example_message 5), DoSendMessage (example_message 5), DoGetData 7]
       example_channel = Inr (evs, s) \<and>
     sendq_ok (m_sendQueue s) \<and> 0 < length (m_sentPackets s) \<and>
     Find (m_sentPackets s) 7 = Some e \<and> \<not> acked e \<and> messageIds e = [0, 1] \<and>
     Find (m_sendQueue s) 0 \<noteq> None \<and> Find (m_sentPackets s) 6 = None"
  by (simp add: GetData_eval sendq_ok_def)

theorem ProcessAck_releases_witness:
  "\<exists>s e s'. sendq_ok (m_sendQueue s) \<and> 0 < length (m_sentPackets s) \<and>
     Find (m_sentPackets s) 7 = Some e \<and> \<not> acked e \<and> 0 \<in> set (messageIds e) \<and>
     Find (m_sendQueue s) 0 \<noteq> None \<and>
     ProcessAck 7 s = Inr s' \<and> Find (m_sendQueue s') 0 = None \<and> ProcessAck 7 s' = Inr s' \<and>
     Find (m_sentPackets s) 6 = None \<and> ProcessAck 6 s = Inr s"
proof -
  from example_run_packet obtain s :: ReliableMessageChannel and e where
    h: "sendq_ok (m_sendQueue s)" "0 < length (m_sentPackets s)"
      "Find (m_sentPackets s) 7 = Some e" "\<not> acked e" "messageIds e = [0, 1]"
      "Find (m_sendQueue s) 0 \<noteq> None" "Find (m_sentPackets s) 6 = None"
    by blast
  from ProcessAck_releases[OF h(1,2), of 7] h(3,4,5)
  obtain s' where "ProcessAck 7 s = Inr s'" "Find (m_sendQueue s') 0 = None" "ProcessAck 7 s' = Inr s'"
    by force
  moreover from ProcessAck_releases[OF h(1,2), of 6] h(7) have "ProcessAck 6 s = Inr s" by blast
  ultimately show ?thesis using h by auto
qed

section \<open>Reliable message channel: resending\<close>

lemma SendMessage_eq:
  assumes "0 < length (m_sendQueue s)"
  shows "SendMessage msg s =
     (if CanSendMessage s
      then Inr (None,
             s\<lparr>m_sendQueue := Store (m_sendQueue s) (m_sendMessageId s)
                  \<lparr>sequence = m_sendMessageId s, valid = True,
                   message = Some (msg\<lparr>msg_id := m_sendMessageId s\<rparr>),
                   measuredBits = word_of_int (int (msg_bits msg) + m_messageOverheadBits s),
                   timeLastSent = - 1\<rparr>,
               m_counters := (m_counters s)\<lparr>MessagesSent := MessagesSent (m_counters s) + 1\<rparr>,
               m_sendMessageId := m_sendMessageId s + 1\<rparr>)
      else Inr (Some QueueOverflow, s))"
  using assms
  by (simp add: SendMessage_def CanSendMessage_def Insert_def Find_Store SendQueueEntry_new_def Let_def)

lemma gathered_sendq_ok:
  assumes "gathered cfg now q new q' a a'" "sendq_ok q"
  shows "sendq_ok q'"
proof -
  have "\<exists>m. message e = Some m \<and> msg_id m = sequence e" if "e \<in> set q'" "valid e" for e
  proof -
    from that(1) obtain k where k: "k < length q'" "e = q' ! k" by (auto simp: in_set_conv_nth)
    with assms(1) have kq: "k < length q" by (simp add: gathered_def)
    with assms(1) have "q' ! k = q ! k \<or> q' ! k = (q ! k)\<lparr>timeLastSent := now\<rparr>"
      by (auto simp: gathered_def)
    moreover from kq have "q ! k \<in> set q" by simp
    ultimately show ?thesis using assms(2) k that(2) by (auto simp: sendq_ok_def)
  qed
  with assms show ?thesis by (auto simp: sendq_ok_def gathered_def)
qed

lemma gathered_Find:
  assumes g: "gathered cfg now q new q' a a'" and len: "0 < length q" and f: "Find q' i = Some e'"
  shows "(Find q i = Some e' \<or>
          (\<exists>e. Find q i = Some e \<and> e' = e\<lparr>timeLastSent := now\<rparr> \<and>
                double_add (timeLastSent e) (resendRate cfg) \<le> now))"
proof -
  let ?k = "slot_index q i"
  have k: "?k < length q" using len by (rule slot_index_less)
  have s: "slot_index q' i = ?k" using g by (simp add: gathered_def slot_index_def)
  note fD = Find_SomeD[OF f]
  from g k have "q' ! ?k = q ! ?k \<or>
        (q' ! ?k = (q ! ?k)\<lparr>timeLastSent := now\<rparr> \<and> valid (q ! ?k) \<and> sequence (q ! ?k) \<in> set new)"
    by (auto simp: gathered_def)
  then show ?thesis
  proof
    assume "q' ! ?k = q ! ?k"
    with fD s have "Find q i = Some e'" by (auto simp: Find_def)
    then show ?thesis by simp
  next
    assume a: "q' ! ?k = (q ! ?k)\<lparr>timeLastSent := now\<rparr> \<and> valid (q ! ?k) \<and> sequence (q ! ?k) \<in> set new"
    with fD s have seq: "sequence (q ! ?k) = i" by auto
    with a have "i \<in> set new" by simp
    with g obtain e where e: "Find q i = Some e" "double_add (timeLastSent e) (resendRate cfg) \<le> now"
      by (auto simp: gathered_def)
    from Find_SomeD[OF e(1)] a fD s have "e' = e\<lparr>timeLastSent := now\<rparr>" by auto
    with e show ?thesis by blast
  qed
qed

lemma GetData_sendq_ok:
  assumes "sendq_ok (m_sendQueue s)" "GetData cfg seq s = Inr (r, s')"
  shows "sendq_ok (m_sendQueue s')"
proof -
  from assms(1) have "0 < length (m_sendQueue s)" by (simp add: sendq_ok_def)
  from GetData_cases[OF this assms(2)] gathered_sendq_ok assms(1) show ?thesis by blast
qed

lemma GetData_included:
  assumes ok: "sendq_ok (m_sendQueue s)" and G: "GetData cfg seq s = Inr (Some msgs, s')"
    and m: "m \<in> set msgs"
  shows "\<exists>e. Find (m_sendQueue s) (msg_id m) = Some e \<and> message e = Some m \<and>
             double_add (timeLastSent e) (resendRate cfg) \<le> m_timeBase s \<and>
             Find (m_sendQueue s') (msg_id m) = Some (e\<lparr>timeLastSent := m_timeBase s\<rparr>)"
proof -
  from ok have len: "0 < length (m_sendQueue s)" by (simp add: sendq_ok_def)
  from GetData_cases[OF len G] obtain ids a' where
    g: "gathered cfg (m_timeBase s) (m_sendQueue s) ids (m_sendQueue s') (packetBudget cfg * 8) a'"
    and c: "collect_messages (m_sendQueue s') ids = Inr msgs"
    by auto
  from gathered_sendq_ok[OF g ok] have ok': "sendq_ok (m_sendQueue s')" .
  then have len': "0 < length (m_sendQueue s')" by (simp add: sendq_ok_def)
  from m obtain j where j: "j < length msgs" "m = msgs ! j" by (auto simp: in_set_conv_nth)
  from collect_messages_all2[OF c] j have jl: "j < length ids"
    and "\<exists>e. Find (m_sendQueue s') (ids ! j) = Some e \<and> message e = Some m"
    by (auto simp: list_all2_conv_all_nth)
  then obtain x e' where
    x: "x \<in> set ids" "Find (m_sendQueue s') x = Some e'" "message e' = Some m"
    using nth_mem[OF jl] by blast
  from Find_mem[OF len' x(2)] Find_SomeD[OF x(2)] ok' x(3) have "msg_id m = x"
    by (auto simp: sendq_ok_def)
  with x g obtain e where e: "Find (m_sendQueue s) (msg_id m) = Some e"
    "double_add (timeLastSent e) (resendRate cfg) \<le> m_timeBase s"
    "Find (m_sendQueue s') (msg_id m) = Some (e\<lparr>timeLastSent := m_timeBase s\<rparr>)"
    by (auto simp: gathered_def)
  with x \<open>msg_id m = x\<close> have "message e = Some m" by auto
  with e show ?thesis by blast
qed

lemma process_messages_sendq:
  "process_messages lo hi msgs (b, s) = Inr (b', s') \<Longrightarrow> m_sendQueue s' = m_sendQueue s"
proof (induction msgs arbitrary: b s)
  case Nil
  then show ?case by simp
next
  case (Cons m msgs)
  from Cons.prems obtain b1 s1 where 1: "process_message lo hi m (b, s) = Inr (b1, s1)"
    and 2: "process_messages lo hi msgs (b1, s1) = Inr (b', s')"
    by (auto split: sum.splits)
  from 1 have "m_sendQueue s1 = m_sendQueue s"
    by (auto simp: process_message_def Let_def split: if_splits prod.splits)
  with Cons.IH[OF 2] show ?case by simp
qed

lemma ProcessData_sendq:
  "ProcessData cfg seq msgs s = Inr (x, s') \<Longrightarrow> m_sendQueue s' = m_sendQueue s"
  using process_messages_sendq[of _ _ msgs False s]
  by (auto simp: ProcessData_def Let_def split: sum.splits if_splits)

lemma ReceiveMessage_sendq:
  "ReceiveMessage s = Inr (x, s') \<Longrightarrow> m_sendQueue s' = m_sendQueue s"
  by (auto simp: ReceiveMessage_def Let_def split: option.splits if_splits)

lemma step_sendq:
  assumes ok: "sendq_ok (m_sendQueue s)" and st: "step cfg x s = Inr (ev, s')"
  shows "m_sendQueue s' = m_sendQueue s
       \<or> (\<exists>e. ev = Sent (sequence e) \<and> valid e \<and> timeLastSent e = - 1 \<and>
               m_sendQueue s' = Store (m_sendQueue s) (sequence e) e \<and>
               (\<exists>m. message e = Some m \<and> msg_id m = sequence e))
       \<or> (\<exists>new a a'. gathered cfg (m_timeBase s) (m_sendQueue s) new (m_sendQueue s') a a')
       \<or> (\<exists>ids. released (m_sendQueue s) ids (m_sendQueue s'))"
proof -
  from ok have len: "0 < length (m_sendQueue s)" by (simp add: sendq_ok_def)
  show ?thesis
  proof (cases x)
    case (DoSendMessage msg)
    show ?thesis
    proof (cases "CanSendMessage s")
      case True
      let ?e = "\<lparr>sequence = m_sendMessageId s, valid = True,
                   message = Some (msg\<lparr>msg_id := m_sendMessageId s\<rparr>),
                   measuredBits = word_of_int (int (msg_bits msg) + m_messageOverheadBits s),
                   timeLastSent = - 1\<rparr>"
      from st DoSendMessage True have "ev = Sent (sequence ?e)"
        "m_sendQueue s' = Store (m_sendQueue s) (sequence ?e) ?e"
        by (auto simp: SendMessage_eq[OF len])
      then show ?thesis by (intro disjI2 disjI1 exI[of _ ?e]) simp
    next
      case False
      with st DoSendMessage show ?thesis by (auto simp: SendMessage_eq[OF len])
    qed
  next
    case DoReceiveMessage
    with st ReceiveMessage_sendq[of s] show ?thesis by (auto split: sum.splits option.splits)
  next
    case (DoGetData seq)
    with st obtain r where "GetData cfg seq s = Inr (r, s')"
      by (auto split: sum.splits option.splits)
    from GetData_cases[OF len this] show ?thesis by blast
  next
    case (DoProcessData seq msgs)
    with st ProcessData_sendq[of cfg seq msgs s] show ?thesis
      by (auto split: sum.splits option.splits)
  next
    case (DoProcessAck a)
    with st have P: "ProcessAck a s = Inr s'" by (auto split: sum.splits)
    from ProcessAck_cases[OF ok, of a] P released_refl[of "m_sendQueue s"] show ?thesis
      by (auto split: option.splits if_splits)
  next
    case (DoUpdate t)
    with st show ?thesis by (auto simp: Update_def)
  qed
qed

lemma step_sendq_ok:
  assumes ok: "sendq_ok (m_sendQueue s)" and st: "step cfg x s = Inr (ev, s')"
  shows "sendq_ok (m_sendQueue s')"
  using step_sendq[OF assms]
proof (elim disjE exE conjE)
  assume "m_sendQueue s' = m_sendQueue s"
  with ok show ?thesis by simp
next
  fix e m
  assume "m_sendQueue s' = Store (m_sendQueue s) (sequence e) e" "message e = Some m"
    "msg_id m = sequence e"
  with sendq_ok_Store[OF ok, of e "sequence e"] show ?thesis by simp
next
  fix new a a'
  assume "gathered cfg (m_timeBase s) (m_sendQueue s) new (m_sendQueue s') a a'"
  from gathered_sendq_ok[OF this ok] show ?thesis .
next
  fix ids
  assume "released (m_sendQueue s) ids (m_sendQueue s')"
  from released_sendq_ok[OF this ok] show ?thesis .
qed

lemma step_Find_None:
  assumes ok: "sendq_ok (m_sendQueue s)" and st: "step cfg x s = Inr (ev, s')"
    and ev: "ev \<noteq> Sent i" and none: "Find (m_sendQueue s) i = None"
  shows "Find (m_sendQueue s') i = None"
proof -
  from ok have len: "0 < length (m_sendQueue s)" by (simp add: sendq_ok_def)
  from step_sendq[OF ok st] show ?thesis
  proof (elim disjE exE conjE)
    assume "m_sendQueue s' = m_sendQueue s"
    with none show ?thesis by simp
  next
    fix e m
    assume "ev = Sent (sequence e)" "m_sendQueue s' = Store (m_sendQueue s) (sequence e) e"
    with ev none len show ?thesis by (auto simp: Find_Store)
  next
    fix new a a'
    assume g: "gathered cfg (m_timeBase s) (m_sendQueue s) new (m_sendQueue s') a a'"
    show ?thesis
    proof (cases "Find (m_sendQueue s') i")
      case None
      then show ?thesis .
    next
      case (Some e')
      from gathered_Find[OF g len Some] none show ?thesis by auto
    qed
  next
    fix ids
    assume "released (m_sendQueue s) ids (m_sendQueue s')"
    from released_Find_None[OF this none] show ?thesis .
  qed
qed

lemma step_timeLastSent:
  assumes rate: "0 \<le> resendRate cfg" and dbl: "is_double t"
    and ok: "sendq_ok (m_sendQueue s)" and st: "step cfg x s = Inr (ev, s')"
    and ev: "ev \<noteq> Sent i"
    and J: "\<forall>e. Find (m_sendQueue s) i = Some e \<longrightarrow> t \<le> timeLastSent e"
  shows "\<forall>e. Find (m_sendQueue s') i = Some e \<longrightarrow> t \<le> timeLastSent e"
proof -
  from ok have len: "0 < length (m_sendQueue s)" by (simp add: sendq_ok_def)
  from step_sendq[OF ok st] show ?thesis
  proof (elim disjE exE conjE)
    assume "m_sendQueue s' = m_sendQueue s"
    with J show ?thesis by simp
  next
    fix e m
    assume "ev = Sent (sequence e)" "m_sendQueue s' = Store (m_sendQueue s) (sequence e) e"
    with ev J len show ?thesis by (auto simp: Find_Store)
  next
    fix new a a'
    assume g: "gathered cfg (m_timeBase s) (m_sendQueue s) new (m_sendQueue s') a a'"
    show ?thesis
    proof (intro allI impI)
      fix e' assume "Find (m_sendQueue s') i = Some e'"
      from gathered_Find[OF g len this] show "t \<le> timeLastSent e'"
      proof (elim disjE exE conjE)
        assume "Find (m_sendQueue s) i = Some e'"
        with J show ?thesis by simp
      next
        fix e
        assume e: "Find (m_sendQueue s) i = Some e" "e' = e\<lparr>timeLastSent := m_timeBase s\<rparr>"
          "double_add (timeLastSent e) (resendRate cfg) \<le> m_timeBase s"
        from J e(1) have "t \<le> timeLastSent e" by simp
        from double_add_ge[OF dbl rate] double_add_mono[OF this, of "resendRate cfg"] e(3)
        have "t \<le> m_timeBase s" by linarith
        with e(2) show ?thesis by simp
      qed
    qed
  next
    fix ids
    assume r: "released (m_sendQueue s) ids (m_sendQueue s')"
    show ?thesis
    proof (intro allI impI)
      fix e' assume f: "Find (m_sendQueue s') i = Some e'"
      let ?k = "slot_index (m_sendQueue s) i"
      have k: "?k < length (m_sendQueue s)" using len by (rule slot_index_less)
      have s: "slot_index (m_sendQueue s') i = ?k" using r by (simp add: released_def slot_index_def)
      from Find_SomeD[OF f] s have v: "valid (m_sendQueue s' ! ?k)" "e' = m_sendQueue s' ! ?k"
        "sequence e' = i" by auto
      from r k v(1) have "m_sendQueue s' ! ?k = m_sendQueue s ! ?k" by (auto simp: released_def)
      with v have "Find (m_sendQueue s) i = Some e'" by (auto simp: Find_def)
      with J show "t \<le> timeLastSent e'" by simp
    qed
  qed
qed

lemma run_send_invariants:
  assumes rate: "0 \<le> resendRate cfg" and dbl: "is_double t"
  shows "sendq_ok (m_sendQueue s) \<Longrightarrow> run cfg ops s = Inr (evs, s') \<Longrightarrow> Sent i \<notin> set evs \<Longrightarrow>
    sendq_ok (m_sendQueue s') \<and>
    (Find (m_sendQueue s) i = None \<longrightarrow> Find (m_sendQueue s') i = None) \<and>
    ((\<forall>e. Find (m_sendQueue s) i = Some e \<longrightarrow> t \<le> timeLastSent e) \<longrightarrow>
     (\<forall>e. Find (m_sendQueue s') i = Some e \<longrightarrow> t \<le> timeLastSent e))"
proof (induction ops arbitrary: s evs)
  case Nil
  then show ?case by simp
next
  case (Cons x ops)
  from Cons.prems(2) obtain ev s1 es where 1: "step cfg x s = Inr (ev, s1)"
    and 2: "run cfg ops s1 = Inr (es, s')" and evs: "evs = ev # es"
    by (auto split: sum.splits prod.splits)
  from Cons.prems(3) evs have ne: "ev \<noteq> Sent i" "Sent i \<notin> set es" by auto
  note ok1 = step_sendq_ok[OF Cons.prems(1) 1]
  note ih = Cons.IH[OF ok1 2 ne(2)]
  note n1 = step_Find_None[OF Cons.prems(1) 1 ne(1)]
  note t1 = step_timeLastSent[OF rate dbl Cons.prems(1) 1 ne(1)]
  show ?case
  proof (intro conjI impI)
    show "sendq_ok (m_sendQueue s')" using ih by (rule conjunct1)
  next
    assume "Find (m_sendQueue s) i = None"
    from n1[OF this] show "Find (m_sendQueue s') i = None"
      by (rule ih[THEN conjunct2, THEN conjunct1, THEN mp])
  next
    assume "\<forall>e. Find (m_sendQueue s) i = Some e \<longrightarrow> t \<le> timeLastSent e"
    from t1[OF this] show "\<forall>e. Find (m_sendQueue s') i = Some e \<longrightarrow> t \<le> timeLastSent e"
      by (rule ih[THEN conjunct2, THEN conjunct2, THEN mp])
  qed
qed

lemmas resend_eval = GetData_eval example_config_tenth_def example_large_message_def
  float_round_tenth double_round_examples double_add_tenth_examples

text \<open>
  Claim C7, as stated, fails: the sum \<open>timeLastSent + resendRate\<close> that \<open>GetData\<close> compares
  with the time is rounded to a \<open>double\<close>, and the rounded sum can be smaller than the
  exact one. With the resend rate \<open>0.1f\<close>, a message that is put into a packet at the time
  \<open>0.9\<close> (as a \<open>double\<close>) is put into a packet again at the time that is the rounded sum
  of the two, which is earlier than \<open>0.9 + 0.1f\<close> by \<open>2 powi - 53\<close>.
\<close>

theorem resend_spacing_counterexample:
  "\<exists>s1 s2 s3 s4.
     run example_config_tenth
       [DoSendMessage (example_large_message 0), DoUpdate (double_round (9 / 10))]
       example_channel = Inr ([Sent 0, TimeUpdated], s1) \<and>
     GetData example_config_tenth 7 s1 = Inr (Some [example_large_message 0], s2) \<and>
     run example_config_tenth
       [DoUpdate (double_add (double_round (9 / 10)) (float_round (1 / 10)))] s2
       = Inr ([TimeUpdated], s3) \<and>
     GetData example_config_tenth 8 s3 = Inr (Some [example_large_message 0], s4) \<and>
     m_timeBase s3 < m_timeBase s1 + resendRate example_config_tenth \<and>
     m_timeBase s1 + resendRate example_config_tenth - m_timeBase s3 = 1 / 2 ^ 53"
  by (simp add: resend_eval)

text \<open>
  Claim C7 (amended). Let the resend rate be not negative, let \<open>GetData\<close> put the message
  id \<open>i\<close> into a packet at the time \<open>m_timeBase s1\<close>, a \<open>double\<close>, and let any operations
  follow in which \<open>SendMessage\<close> does not give the id \<open>i\<close> to a new message. Then a later
  \<open>GetData\<close> that puts \<open>i\<close> into its packet runs at a time that is at least the sum of
  \<open>m_timeBase s1\<close> and the resend rate as \<open>GetData\<close> computes it, rounded to a \<open>double\<close>;
  this is at least the exact sum less half a unit in the last place of the sum. And once
  \<open>ProcessAck\<close> has processed a packet that holds \<open>i\<close> and was not acked before, no
  \<open>GetData\<close> puts \<open>i\<close> into a packet, again as long as the id is not given to a new
  message.
\<close>

theorem resend_spacing:
  assumes rate: "0 \<le> resendRate cfg" and dbl: "is_double (m_timeBase s1)"
    and ok: "sendq_ok (m_sendQueue s1)"
    and g1: "GetData cfg p1 s1 = Inr (Some msgs1, s2)" and i1: "i \<in> msg_id ` set msgs1"
    and run: "run cfg ops s2 = Inr (evs, s3)" and nosend: "Sent i \<notin> set evs"
  shows "(\<forall>p2 msgs2 s4. GetData cfg p2 s3 = Inr (Some msgs2, s4) \<and> i \<in> msg_id ` set msgs2 \<longrightarrow>
            double_add (m_timeBase s1) (resendRate cfg) \<le> m_timeBase s3 \<and>
            m_timeBase s1 + resendRate cfg
              - 2 powi ulp_exp 53 (- 1074) (m_timeBase s1 + resendRate cfg) / 2 \<le> m_timeBase s3)
       \<and> (\<forall>p e sa ops' evs' sb p2 msgs2 s4.
            Find (m_sentPackets s3) p = Some e \<and> \<not> acked e \<and> i \<in> set (messageIds e) \<and>
            ProcessAck p s3 = Inr sa \<and> run cfg ops' sa = Inr (evs', sb) \<and> Sent i \<notin> set evs' \<and>
            GetData cfg p2 sb = Inr (Some msgs2, s4) \<longrightarrow> i \<notin> msg_id ` set msgs2)"
proof -
  from i1 obtain m1 where m1: "m1 \<in> set msgs1" "msg_id m1 = i" by auto
  from GetData_included[OF ok g1 m1(1)] m1(2) obtain e1 where
    e1: "Find (m_sendQueue s2) i = Some (e1\<lparr>timeLastSent := m_timeBase s1\<rparr>)" by auto
  then have J2: "\<forall>e. Find (m_sendQueue s2) i = Some e \<longrightarrow> m_timeBase s1 \<le> timeLastSent e"
    by auto
  note ok2 = GetData_sendq_ok[OF ok g1]
  note inv = run_send_invariants[OF rate dbl ok2 run nosend]
  from inv have ok3: "sendq_ok (m_sendQueue s3)" by (rule conjunct1)
  from J2 have J3: "\<forall>e. Find (m_sendQueue s3) i = Some e \<longrightarrow> m_timeBase s1 \<le> timeLastSent e"
    by (rule inv[THEN conjunct2, THEN conjunct2, THEN mp])
  have part1: "double_add (m_timeBase s1) (resendRate cfg) \<le> m_timeBase s3 \<and>
            m_timeBase s1 + resendRate cfg
              - 2 powi ulp_exp 53 (- 1074) (m_timeBase s1 + resendRate cfg) / 2 \<le> m_timeBase s3"
    if "GetData cfg p2 s3 = Inr (Some msgs2, s4)" "i \<in> msg_id ` set msgs2" for p2 msgs2 s4
  proof -
    from that(2) obtain m2 where m2: "m2 \<in> set msgs2" "msg_id m2 = i" by auto
    from GetData_included[OF ok3 that(1) m2(1)] m2(2) obtain e3 where
      e3: "Find (m_sendQueue s3) i = Some e3" "double_add (timeLastSent e3) (resendRate cfg) \<le> m_timeBase s3"
      by auto
    from J3 e3(1) have "m_timeBase s1 \<le> timeLastSent e3" by simp
    from double_add_mono[OF this, of "resendRate cfg"] e3(2)
    have 1: "double_add (m_timeBase s1) (resendRate cfg) \<le> m_timeBase s3" by simp
    from double_add_error[of "m_timeBase s1" "resendRate cfg"]
    have "m_timeBase s1 + resendRate cfg
              - 2 powi ulp_exp 53 (- 1074) (m_timeBase s1 + resendRate cfg) / 2
          \<le> double_add (m_timeBase s1) (resendRate cfg)"
      by linarith
    with 1 show ?thesis by simp
  qed
  have part2: "i \<notin> msg_id ` set msgs2"
    if h: "Find (m_sentPackets s3) p = Some e" "\<not> acked e" "i \<in> set (messageIds e)"
      "ProcessAck p s3 = Inr sa" "run cfg ops' sa = Inr (evs', sb)" "Sent i \<notin> set evs'"
      "GetData cfg p2 sb = Inr (Some msgs2, s4)"
    for p e sa ops' evs' sb p2 msgs2 s4
  proof
    assume "i \<in> msg_id ` set msgs2"
    then obtain m2 where m2: "m2 \<in> set msgs2" "msg_id m2 = i" by auto
    from ProcessAck_cases[OF ok3, of p] h(1,2,4) obtain q' where
      r: "released (m_sendQueue s3) (messageIds e) q'" "sendq_ok q'" "m_sendQueue sa = q'"
      by auto
    from r h(3) have none: "Find (m_sendQueue sa) i = None" by (simp add: released_def)
    from r have oka: "sendq_ok (m_sendQueue sa)" by simp
    note inv' = run_send_invariants[OF rate is_double_0 oka h(5) h(6)]
    from inv' have okb: "sendq_ok (m_sendQueue sb)" by (rule conjunct1)
    from none have "Find (m_sendQueue sb) i = None"
      by (rule inv'[THEN conjunct2, THEN conjunct1, THEN mp])
    with GetData_included[OF okb h(7) m2(1)] m2(2) show False by simp
  qed
  from part1 part2 show ?thesis by blast
qed

lemma example_run_resend:
  "\<exists>evs s1 s2 s3 s4 e sa s5.
     run example_config [DoSendMessage (example_large_message 9), DoSendMessage (example_large_message 9)]
       example_channel = Inr (evs, s1) \<and>
     sendq_ok (m_sendQueue s1) \<and> m_timeBase s1 = 0 \<and>
     GetData example_config 7 s1 = Inr (Some [example_large_message 0], s2) \<and>
     run example_config [DoUpdate 1] s2 = Inr ([TimeUpdated], s3) \<and>
     GetData example_config 8 s3 = Inr (Some [example_large_message 0], s4) \<and>
     Find (m_sentPackets s3) 7 = Some e \<and> \<not> acked e \<and> messageIds e = [0] \<and>
     ProcessAck 7 s3 = Inr sa \<and>
     GetData example_config 9 sa = Inr (Some [example_large_message 1], s5)"
  by (simp add: GetData_eval sendq_ok_def example_large_message_def)

theorem resend_spacing_witness:
  "\<exists>s1 s2 s3 s4 e sa s5.
     0 \<le> resendRate example_config \<and> is_double (m_timeBase s1) \<and> sendq_ok (m_sendQueue s1) \<and>
     GetData example_config 7 s1 = Inr (Some [example_large_message 0], s2) \<and>
     0 \<in> msg_id ` set [example_large_message 0] \<and>
     run example_config [DoUpdate 1] s2 = Inr ([TimeUpdated], s3) \<and>
     Sent 0 \<notin> set [TimeUpdated] \<and>
     GetData example_config 8 s3 = Inr (Some [example_large_message 0], s4) \<and>
     double_add (m_timeBase s1) (resendRate example_config) \<le> m_timeBase s3 \<and>
     m_timeBase s1 + resendRate example_config
       - 2 powi ulp_exp 53 (- 1074) (m_timeBase s1 + resendRate example_config) / 2
       \<le> m_timeBase s3 \<and>
     Find (m_sentPackets s3) 7 = Some e \<and> \<not> acked e \<and> 0 \<in> set (messageIds e) \<and>
     ProcessAck 7 s3 = Inr sa \<and> run example_config [] sa = Inr ([], sa) \<and>
     GetData example_config 9 sa = Inr (Some [example_large_message 1], s5) \<and>
     0 \<notin> msg_id ` set [example_large_message 1]"
proof -
  from example_run_resend obtain s1 s2 s3 s4 :: ReliableMessageChannel and e
      and sa s5 :: ReliableMessageChannel where
    h: "sendq_ok (m_sendQueue s1)"
      "GetData example_config 7 s1 = Inr (Some [example_large_message 0], s2)"
      "run example_config [DoUpdate 1] s2 = Inr ([TimeUpdated], s3)"
      "GetData example_config 8 s3 = Inr (Some [example_large_message 0], s4)"
      "Find (m_sentPackets s3) 7 = Some e" "\<not> acked e" "messageIds e = [0]"
      "ProcessAck 7 s3 = Inr sa"
      "GetData example_config 9 sa = Inr (Some [example_large_message 1], s5)"
    and t0: "m_timeBase s1 = 0"
    by blast
  have rate: "0 \<le> resendRate example_config" by (simp add: example_config_def)
  from t0 have dbl: "is_double (m_timeBase s1)" by simp
  have i1: "0 \<in> msg_id ` set [example_large_message 0]" by (simp add: example_large_message_def)
  have ns: "Sent 0 \<notin> set [TimeUpdated]" "Sent 0 \<notin> set []" by simp_all
  have r0: "run example_config [] sa = Inr ([], sa)" by simp
  note T = resend_spacing[OF rate dbl h(1) h(2) i1 h(3) ns(1)]
  from T h(4) i1 have c1: "double_add (m_timeBase s1) (resendRate example_config) \<le> m_timeBase s3 \<and>
     m_timeBase s1 + resendRate example_config
       - 2 powi ulp_exp 53 (- 1074) (m_timeBase s1 + resendRate example_config) / 2
       \<le> m_timeBase s3" by blast
  from h(7) have i7: "0 \<in> set (messageIds e)" by simp
  from T h(5) h(6) i7 h(8) r0 ns(2) h(9)
  have c2: "0 \<notin> msg_id ` set [example_large_message 1]" by blast
  from rate dbl h i1 ns r0 c1 i7 c2 show ?thesis by blast
qed

text \<open>
  Claim C9, as stated, fails in its last sentence: a \<open>GetData\<close> whose payload is discarded
  delays the next retransmission until the time reaches the rounded sum of the time of
  the call and the resend rate, which can be less than \<open>resendRate\<close> later. With the resend
  rate \<open>0.1f\<close> and a first call at the time \<open>0.45\<close> (as a \<open>double\<close>), the message is returned
  again by a call that comes less than \<open>0.1f\<close> later.
\<close>

theorem GetData_frame_counterexample:
  "\<exists>s s' s''.
     run example_config_tenth
       [DoSendMessage (example_large_message 0), DoUpdate (double_round (9 / 20))]
       example_channel = Inr ([Sent 0, TimeUpdated], s) \<and>
     GetData example_config_tenth 7 s = Inr (Some [example_large_message 0], s') \<and>
     double_add (double_round (9 / 20)) (float_round (1 / 10)) - m_timeBase s
       < resendRate example_config_tenth \<and>
     GetData example_config_tenth 8
       (Update (double_add (double_round (9 / 20)) (float_round (1 / 10))) s')
       = Inr (Some [example_large_message 0], s'')"
  by (simp add: resend_eval)

text \<open>
  Claim C9 (amended). A call of \<open>GetData\<close> that returns a payload leaves every slot of the
  send queue as it was or sets its \<open>timeLastSent\<close> to the current time and nothing else; a
  slot that it changes holds a valid entry whose message is in the payload, and every
  message of the payload is in such a slot, whose \<open>timeLastSent\<close> is then the current
  time. Whoever calls \<open>GetData\<close> again before the time has reached the sum of the time of
  this call and the resend rate, as \<open>GetData\<close> computes it (rounded to a \<open>double\<close>), gets
  none of these messages, whatever became of the payload.
\<close>

theorem GetData_frame:
  assumes ok: "sendq_ok (m_sendQueue s)" and G: "GetData cfg seq s = Inr (Some msgs, s')"
  shows "length (m_sendQueue s') = length (m_sendQueue s)
     \<and> (\<forall>k < length (m_sendQueue s).
           m_sendQueue s' ! k = m_sendQueue s ! k \<or>
           (m_sendQueue s' ! k = (m_sendQueue s ! k)\<lparr>timeLastSent := m_timeBase s\<rparr> \<and>
            valid (m_sendQueue s ! k) \<and> (\<exists>m \<in> set msgs. message (m_sendQueue s ! k) = Some m)))
     \<and> (\<forall>m \<in> set msgs. \<exists>k < length (m_sendQueue s).
           valid (m_sendQueue s ! k) \<and> message (m_sendQueue s ! k) = Some m \<and>
           m_sendQueue s' ! k = (m_sendQueue s ! k)\<lparr>timeLastSent := m_timeBase s\<rparr>)
     \<and> (\<forall>t seq2 msgs2 s''. t < double_add (m_timeBase s) (resendRate cfg) \<and>
           GetData cfg seq2 (Update t s') = Inr (Some msgs2, s'') \<longrightarrow> set msgs2 \<inter> set msgs = {})"
proof -
  let ?q = "m_sendQueue s" and ?q' = "m_sendQueue s'"
  from ok have len: "0 < length ?q" by (simp add: sendq_ok_def)
  from GetData_cases[OF len G] obtain ids a' where
    g: "gathered cfg (m_timeBase s) ?q ids ?q' (packetBudget cfg * 8) a'"
    and c: "collect_messages ?q' ids = Inr msgs"
    by auto
  from g have L: "length ?q' = length ?q" by (simp add: gathered_def)
  note ok' = GetData_sendq_ok[OF ok G]
  have sel: "\<exists>m \<in> set msgs. message (?q ! k) = Some m"
    if k: "k < length ?q" and ch: "?q' ! k = (?q ! k)\<lparr>timeLastSent := m_timeBase s\<rparr>"
      "valid (?q ! k)" "sequence (?q ! k) \<in> set ids" "slot_index ?q (sequence (?q ! k)) = k" for k
  proof -
    from ch(3) obtain j where j: "j < length ids" "ids ! j = sequence (?q ! k)"
      by (auto simp: in_set_conv_nth)
    from collect_messages_all2[OF c] j obtain e where
      e: "Find ?q' (sequence (?q ! k)) = Some e" "message e = Some (msgs ! j)" "j < length msgs"
      by (auto simp: list_all2_conv_all_nth)
    from Find_SomeD[OF e(1)] L ch(4) have "e = ?q' ! k" by (simp add: slot_index_def)
    with ch(1) e(2) have "message (?q ! k) = Some (msgs ! j)" by simp
    with e(3) show ?thesis by auto
  qed
  have slots: "?q' ! k = ?q ! k \<or>
           (?q' ! k = (?q ! k)\<lparr>timeLastSent := m_timeBase s\<rparr> \<and>
            valid (?q ! k) \<and> (\<exists>m \<in> set msgs. message (?q ! k) = Some m))" if k: "k < length ?q" for k
    using g k sel[OF k] unfolding gathered_def by blast
  have each: "\<exists>k < length ?q. valid (?q ! k) \<and> message (?q ! k) = Some m \<and>
           ?q' ! k = (?q ! k)\<lparr>timeLastSent := m_timeBase s\<rparr>" if m: "m \<in> set msgs" for m
  proof -
    from GetData_included[OF ok G m] obtain e where
      e: "Find ?q (msg_id m) = Some e" "message e = Some m"
      "Find ?q' (msg_id m) = Some (e\<lparr>timeLastSent := m_timeBase s\<rparr>)"
      by blast
    let ?k = "slot_index ?q (msg_id m)"
    have k: "?k < length ?q" using len by (rule slot_index_less)
    from Find_SomeD[OF e(1)] Find_SomeD[OF e(3)] L e(2)
    have "valid (?q ! ?k) \<and> message (?q ! ?k) = Some m \<and>
           ?q' ! ?k = (?q ! ?k)\<lparr>timeLastSent := m_timeBase s\<rparr>"
      by (auto simp: slot_index_def)
    with k show ?thesis by blast
  qed
  have later: "set msgs2 \<inter> set msgs = {}"
    if t: "t < double_add (m_timeBase s) (resendRate cfg)"
      and G2: "GetData cfg seq2 (Update t s') = Inr (Some msgs2, s'')" for t seq2 msgs2 s''
  proof (rule ccontr)
    assume "set msgs2 \<inter> set msgs \<noteq> {}"
    then obtain m where m: "m \<in> set msgs" "m \<in> set msgs2" by auto
    from GetData_included[OF ok G m(1)]
    have 1: "\<exists>e. Find ?q' (msg_id m) = Some (e\<lparr>timeLastSent := m_timeBase s\<rparr>)" by blast
    have oku: "sendq_ok (m_sendQueue (Update t s'))" using ok' by (simp add: Update_def)
    from GetData_included[OF oku G2 m(2)] obtain e2 where
      "Find ?q' (msg_id m) = Some e2" "double_add (timeLastSent e2) (resendRate cfg) \<le> t"
      by (auto simp: Update_def)
    with 1 have "double_add (m_timeBase s) (resendRate cfg) \<le> t" by auto
    with t show False by simp
  qed
  from L slots each later show ?thesis by blast
qed

theorem GetData_frame_witness:
  "\<exists>s s'. sendq_ok (m_sendQueue s) \<and>
     GetData example_config 7 s = Inr (Some [example_large_message 0], s') \<and>
     length (m_sendQueue s') = length (m_sendQueue s) \<and>
     (\<forall>k < length (m_sendQueue s).
           m_sendQueue s' ! k = m_sendQueue s ! k \<or>
           (m_sendQueue s' ! k = (m_sendQueue s ! k)\<lparr>timeLastSent := m_timeBase s\<rparr> \<and>
            valid (m_sendQueue s ! k) \<and>
            (\<exists>m \<in> set [example_large_message 0]. message (m_sendQueue s ! k) = Some m))) \<and>
     (\<forall>m \<in> set [example_large_message 0]. \<exists>k < length (m_sendQueue s).
           valid (m_sendQueue s ! k) \<and> message (m_sendQueue s ! k) = Some m \<and>
           m_sendQueue s' ! k = (m_sendQueue s ! k)\<lparr>timeLastSent := m_timeBase s\<rparr>) \<and>
     (\<forall>t seq2 msgs2 s''. t < double_add (m_timeBase s) (resendRate example_config) \<and>
           GetData example_config seq2 (Update t s') = Inr (Some msgs2, s'') \<longrightarrow>
           set msgs2 \<inter> set [example_large_message 0] = {})"
proof -
  from example_run_resend obtain s s' :: ReliableMessageChannel where
    h: "sendq_ok (m_sendQueue s)"
      "GetData example_config 7 s = Inr (Some [example_large_message 0], s')"
    by blast
  from GetData_frame[OF h] h show ?thesis by blast
qed

lemma run_sendq_ok:
  "sendq_ok (m_sendQueue s) \<Longrightarrow> run cfg ops s = Inr (evs, s') \<Longrightarrow> sendq_ok (m_sendQueue s')"
proof (induction ops arbitrary: s evs)
  case Nil
  then show ?case by simp
next
  case (Cons x ops)
  from Cons.prems(2) obtain ev s1 es where 1: "step cfg x s = Inr (ev, s1)"
    and 2: "run cfg ops s1 = Inr (es, s')"
    by (auto split: sum.splits prod.splits)
  from Cons.IH[OF step_sendq_ok[OF Cons.prems(1) 1] 2] show ?case .
qed

lemma reachable_sendq_ok:
  assumes "ReliableMessageChannel_new K cfg = Inr s0" "0 < sendQueueSize cfg"
    and "run cfg ops s0 = Inr (evs, s)"
  shows "sendq_ok (m_sendQueue s)"
proof -
  from assms(1,2) have "sendq_ok (m_sendQueue s0)"
    by (auto simp: ReliableMessageChannel_new_def Let_def sendq_ok_def SlidingWindow_new_def
          SendQueueEntry_empty_def split: if_splits)
  from run_sendq_ok[OF this assms(3)] show ?thesis .
qed

section \<open>Reliable message channel: SendMessage and ProcessData\<close>

declare binary_digits.simps [simp del]

lemma binary_digits_0 [simp]: "binary_digits 0 = 0"
  by (simp add: binary_digits.simps)

lemma binary_digits_pos: "0 < n \<Longrightarrow> binary_digits n = Suc (binary_digits (n div 2))"
  by (subst binary_digits.simps) simp

lemma binary_digits_bounds:
  "0 < n \<Longrightarrow> 2 ^ (binary_digits n - 1) \<le> n \<and> n < 2 ^ binary_digits n"
proof (induction n rule: binary_digits.induct)
  case (1 n)
  show ?case
  proof (cases "n div 2 = 0")
    case True
    with 1(2) have "n = 1" by presburger
    then show ?thesis by (simp add: binary_digits_pos)
  next
    case False
    with 1 have ih: "2 ^ (binary_digits (n div 2) - 1) \<le> n div 2" "n div 2 < 2 ^ binary_digits (n div 2)"
      by simp_all
    from False have b: "binary_digits (n div 2) = Suc (binary_digits (n div 2) - 1)"
      by (simp add: binary_digits_pos)
    have "2 ^ binary_digits (n div 2) \<le> 2 * (n div 2)"
      using ih(1) by (subst b) simp
    also have "\<dots> \<le> n" by simp
    finally have lo: "2 ^ binary_digits (n div 2) \<le> n" .
    have "n < 2 * (n div 2 + 1)" by presburger
    also have "\<dots> \<le> 2 * 2 ^ binary_digits (n div 2)" using ih(2) by simp
    finally have hi: "n < 2 ^ Suc (binary_digits (n div 2))" by simp
    from lo hi 1(2) show ?thesis by (simp add: binary_digits_pos)
  qed
qed

lemma binary_digits_ceiling_log2: "int (binary_digits n) = \<lceil>log 2 (real n + 1)\<rceil>"
proof (cases "n = 0")
  case True
  then show ?thesis by simp
next
  case False
  then have n: "0 < n" by simp
  from binary_digits_bounds[OF n] have
    1: "2 ^ (binary_digits n - 1) < n + 1" and 2: "n + 1 \<le> 2 ^ ((binary_digits n - 1) + 1)"
    by (simp_all add: binary_digits_pos[OF n])
  from ceiling_log_nat_eq_if[OF 1 2] have "\<lceil>log 2 (real (n + 1))\<rceil> = int (binary_digits n - 1) + 1"
    by simp
  then show ?thesis by (simp add: binary_digits_pos[OF n] add.commute)
qed

lemma bits_required_ceiling_log2:
  "0 \<le> t \<Longrightarrow> bits_required 0 t = \<lceil>log 2 (real_of_int t + 1)\<rceil>"
  using binary_digits_ceiling_log2[of "nat t"] by (simp add: bits_required_def)

text \<open>
  Claim C5, as stated, fails in two places. The constructor of a send-queue entry sets
  \<open>timeLastSent\<close> to -1, which is not an infinitely early time: with a resend rate of 2
  seconds a message sent at time 0 is not put into a packet (\<open>GetData\<close> returns no data).
  And \<open>measuredBits\<close> is a field of 15 bits: for a message of 40000 bits and an overhead of
  18 bits it holds 7250, not 40018.
\<close>

theorem SendMessage_counterexample:
  "map_option timeLastSent
     (Find (m_sendQueue (snd (projr (SendMessage (example_message 0) example_channel)))) 0) = Some (- 1)
   \<and> fst (projr (GetData (example_config\<lparr>resendRate := 2\<rparr>) 0
                   (snd (projr (SendMessage (example_message 0) example_channel))))) = None
   \<and> map_option measuredBits
       (Find (m_sendQueue (snd (projr (SendMessage ((example_message 0)\<lparr>msg_bits := 40000\<rparr>)
                                       example_channel)))) 0) = Some 7250"
  by (simp add: GetData_eval)

text \<open>
  Claim C5 (amended). In a channel whose send window has a slot and whose overhead is the
  one the constructor computes, \<open>SendMessage\<close> of a message \<open>msg\<close> does this. If
  \<open>CanSendMessage\<close> holds, it stores in the slot of \<open>m_sendMessageId\<close> a valid entry with
  this id, with the message carrying this id, with \<open>timeLastSent\<close> -1 and with
  \<open>measuredBits\<close> the bits of the message plus \<open>16 + ceil(log2(maxType + 1))\<close>, reduced
  modulo 2^15; \<open>Find\<close> returns this entry; \<open>MessagesSent\<close> and \<open>m_sendMessageId\<close> are
  incremented (the id modulo 2^16), and nothing else changes. Otherwise it throws
  \<open>QueueOverflow\<close> and the channel is unchanged.
\<close>

theorem SendMessage_effect:
  assumes len: "0 < length (m_sendQueue s)"
    and ov: "m_messageOverheadBits s = 16 + bits_required 0 (maxType cfg)"
    and mt: "0 \<le> maxType cfg"
  shows "(CanSendMessage s \<longrightarrow>
           (\<exists>e. SendMessage msg s =
                  Inr (None,
                       s\<lparr>m_sendQueue := Store (m_sendQueue s) (m_sendMessageId s) e,
                         m_counters := (m_counters s)\<lparr>MessagesSent := MessagesSent (m_counters s) + 1\<rparr>,
                         m_sendMessageId := m_sendMessageId s + 1\<rparr>) \<and>
                Find (Store (m_sendQueue s) (m_sendMessageId s) e) (m_sendMessageId s) = Some e \<and>
                sequence e = m_sendMessageId s \<and> valid e \<and>
                message e = Some (msg\<lparr>msg_id := m_sendMessageId s\<rparr>) \<and>
                timeLastSent e = - 1 \<and>
                uint (measuredBits e) =
                  (int (msg_bits msg) + (16 + \<lceil>log 2 (real_of_int (maxType cfg) + 1)\<rceil>)) mod 2 ^ 15))
       \<and> (\<not> CanSendMessage s \<longrightarrow> SendMessage msg s = Inr (Some QueueOverflow, s))"
proof (intro conjI impI)
  assume "\<not> CanSendMessage s"
  then show "SendMessage msg s = Inr (Some QueueOverflow, s)" by (simp add: SendMessage_eq[OF len])
next
  assume can: "CanSendMessage s"
  let ?e = "\<lparr>sequence = m_sendMessageId s, valid = True,
                   message = Some (msg\<lparr>msg_id := m_sendMessageId s\<rparr>),
                   measuredBits = word_of_int (int (msg_bits msg) + m_messageOverheadBits s) :: 15 word,
                   timeLastSent = - 1 :: real\<rparr>"
  have 1: "SendMessage msg s =
                  Inr (None,
                       s\<lparr>m_sendQueue := Store (m_sendQueue s) (m_sendMessageId s) ?e,
                         m_counters := (m_counters s)\<lparr>MessagesSent := MessagesSent (m_counters s) + 1\<rparr>,
                         m_sendMessageId := m_sendMessageId s + 1\<rparr>)"
    using can by (simp add: SendMessage_eq[OF len])
  have 2: "Find (Store (m_sendQueue s) (m_sendMessageId s) ?e) (m_sendMessageId s) = Some ?e"
    using len by (simp add: Find_Store)
  have 3: "uint (measuredBits ?e) =
             (int (msg_bits msg) + (16 + \<lceil>log 2 (real_of_int (maxType cfg) + 1)\<rceil>)) mod 2 ^ 15"
  proof -
    have g: "uint (word_of_int x :: 15 word) = x mod 2 ^ 15" for x
      by (simp add: uint_word_of_int)
    have "measuredBits ?e =
            word_of_int (int (msg_bits msg) + (16 + \<lceil>log 2 (real_of_int (maxType cfg) + 1)\<rceil>))"
      by (simp only: SendQueueEntry.select_convs ov bits_required_ceiling_log2[OF mt])
    then show ?thesis by (simp only: g)
  qed
  from 1 2 3 show "\<exists>e. SendMessage msg s =
                  Inr (None,
                       s\<lparr>m_sendQueue := Store (m_sendQueue s) (m_sendMessageId s) e,
                         m_counters := (m_counters s)\<lparr>MessagesSent := MessagesSent (m_counters s) + 1\<rparr>,
                         m_sendMessageId := m_sendMessageId s + 1\<rparr>) \<and>
                Find (Store (m_sendQueue s) (m_sendMessageId s) e) (m_sendMessageId s) = Some e \<and>
                sequence e = m_sendMessageId s \<and> valid e \<and>
                message e = Some (msg\<lparr>msg_id := m_sendMessageId s\<rparr>) \<and>
                timeLastSent e = - 1 \<and>
                uint (measuredBits e) =
                  (int (msg_bits msg) + (16 + \<lceil>log 2 (real_of_int (maxType cfg) + 1)\<rceil>)) mod 2 ^ 15"
    by (intro exI[of _ ?e]) simp
qed

theorem SendMessage_effect_witness:
  "0 < length (m_sendQueue example_channel)
   \<and> m_messageOverheadBits example_channel = 16 + bits_required 0 (maxType example_config)
   \<and> 0 \<le> maxType example_config
   \<and> CanSendMessage example_channel
   \<and> (\<exists>s'. SendMessage (example_message 5) example_channel = Inr (None, s')
           \<and> map_option timeLastSent (Find (m_sendQueue s') 0) = Some (- 1)
           \<and> m_sendMessageId s' = 1)
   \<and> 0 < length (m_sendQueue example_wrapped)
   \<and> m_messageOverheadBits example_wrapped = 16 + bits_required 0 (maxType example_config)
   \<and> \<not> CanSendMessage example_wrapped
   \<and> SendMessage (example_message 5) example_wrapped = Inr (Some QueueOverflow, example_wrapped)"
proof -
  have a: "0 < length (m_sendQueue example_channel)"
    "m_messageOverheadBits example_channel = 16 + bits_required 0 (maxType example_config)"
    "0 \<le> maxType example_config" "CanSendMessage example_channel"
    by (simp_all add: channel_eval CanSendMessage_def bits_required_3)
  have b: "0 < length (m_sendQueue example_wrapped)"
    "m_messageOverheadBits example_wrapped = 16 + bits_required 0 (maxType example_config)"
    "\<not> CanSendMessage example_wrapped"
    by (simp_all add: channel_eval CanSendMessage_def bits_required_3 example_wrapped_def
          numeral_3_eq_3[symmetric])
  from SendMessage_effect[OF a(1,2,3), of "example_message 5"] a(4)
  have "\<exists>s'. SendMessage (example_message 5) example_channel = Inr (None, s')
           \<and> map_option timeLastSent (Find (m_sendQueue s') 0) = Some (- 1)
           \<and> m_sendMessageId s' = 1"
    by (auto simp: example_channel_def)
  moreover from SendMessage_effect[OF b(1,2) a(3), of "example_message 5"] b(3)
  have "SendMessage (example_message 5) example_wrapped = Inr (Some QueueOverflow, example_wrapped)"
    by blast
  ultimately show ?thesis using a b by blast
qed

lemma process_messages_overhead:
  "process_messages lo hi msgs (b, s) = Inr (b', s') \<Longrightarrow>
   m_messageOverheadBits s' = m_messageOverheadBits s"
proof (induction msgs arbitrary: b s)
  case Nil
  then show ?case by simp
next
  case (Cons m msgs)
  from Cons.prems obtain b1 s1 where 1: "process_message lo hi m (b, s) = Inr (b1, s1)"
    and 2: "process_messages lo hi msgs (b1, s1) = Inr (b', s')"
    by (auto split: sum.splits)
  from 1 have "m_messageOverheadBits s1 = m_messageOverheadBits s"
    by (auto simp: process_message_def Let_def split: if_splits prod.splits)
  with Cons.IH[OF 2] show ?case by simp
qed

lemma step_overhead:
  assumes "step cfg x s = Inr (ev, s')"
  shows "m_messageOverheadBits s' = m_messageOverheadBits s"
proof (cases x)
  case (DoSendMessage msg)
  with assms show ?thesis
    by (auto simp: SendMessage_def Let_def split: sum.splits option.splits if_splits prod.splits)
next
  case DoReceiveMessage
  with assms show ?thesis
    by (auto simp: ReceiveMessage_def Let_def split: sum.splits option.splits if_splits)
next
  case (DoGetData seq)
  with assms show ?thesis
    by (auto simp: GetData_def Let_def split: sum.splits option.splits if_splits prod.splits)
next
  case (DoProcessData seq msgs)
  with assms process_messages_overhead[of _ _ msgs False s] show ?thesis
    by (auto simp: ProcessData_def Let_def split: sum.splits option.splits if_splits prod.splits)
next
  case (DoProcessAck a)
  with assms show ?thesis
    by (auto simp: ProcessAck_def split: sum.splits option.splits if_splits)
next
  case (DoUpdate t)
  with assms show ?thesis by (auto simp: Update_def)
qed

lemma reachable_overhead:
  assumes "ReliableMessageChannel_new K cfg = Inr s0" and "run cfg ops s0 = Inr (evs, s)"
  shows "m_messageOverheadBits s = 16 + bits_required 0 (maxType cfg)"
proof -
  have "run cfg ops s1 = Inr (evs, s) \<Longrightarrow> m_messageOverheadBits s = m_messageOverheadBits s1"
    for s1
  proof (induction ops arbitrary: s1 evs)
    case Nil
    then show ?case by simp
  next
    case (Cons x ops)
    from Cons.prems obtain ev s2 es where 1: "step cfg x s1 = Inr (ev, s2)"
      and 2: "run cfg ops s2 = Inr (es, s)"
      by (auto split: sum.splits prod.splits)
    from Cons.IH[OF 2] step_overhead[OF 1] show ?case by simp
  qed
  from this[OF assms(2)] assms(1) show ?thesis
    by (auto simp: ReliableMessageChannel_new_def Let_def split: if_splits)
qed

lemma replicate_4: "replicate 4 x = [x, x, x, x]"
  by (simp add: numeral_eq_Suc)

lemma Suc_4: "Suc (Suc (Suc (Suc 0))) = 4"
  by simp

lemma example_new4: "ReliableMessageChannel_new 64 example_config4 = Inr example_channel4"
  by (simp add: ReliableMessageChannel_new_def SlidingWindow_new_def bits_required_3 replicate_2
        replicate_4 example_config_def example_channel_def example_config4_def example_channel4_def)

lemma process_message_effect:
  assumes "process_message lo hi msg (b, s) = Inr (b', s')"
  shows "b' = (b \<or> is_early lo hi msg) \<and>
     s' = s\<lparr>m_receiveQueue := (if in_window lo hi msg then store_received (m_timeBase s) (m_receiveQueue s) msg
                                  else m_receiveQueue s),
            m_counters := (m_counters s)
              \<lparr>MessagesRead := MessagesRead (m_counters s) + 1,
               MessagesDiscardedLate := MessagesDiscardedLate (m_counters s) + (if is_late lo msg then 1 else 0),
               MessagesDiscardedEarly := MessagesDiscardedEarly (m_counters s) + (if is_early lo hi msg then 1 else 0)\<rparr>\<rparr> \<and>
     (in_window lo hi msg \<longrightarrow> HasSlotAvailable (m_receiveQueue s) (msg_id msg))"
  using assms
  by (auto simp: process_message_def Let_def is_late_def is_early_def in_window_def store_received_def
        Insert_def ReceiveQueueEntry_new_def split: if_splits)

lemma process_messages_effect:
  "process_messages lo hi msgs (b, s) = Inr (b', s') \<Longrightarrow>
   b' = (b \<or> (\<exists>m \<in> set msgs. is_early lo hi m)) \<and>
   s' = s\<lparr>m_receiveQueue := foldl (store_received (m_timeBase s)) (m_receiveQueue s)
                               (filter (in_window lo hi) msgs),
          m_counters := (m_counters s)
            \<lparr>MessagesRead := MessagesRead (m_counters s) + of_nat (length msgs),
             MessagesDiscardedLate := MessagesDiscardedLate (m_counters s)
                                       + of_nat (length (filter (is_late lo) msgs)),
             MessagesDiscardedEarly := MessagesDiscardedEarly (m_counters s)
                                       + of_nat (length (filter (is_early lo hi) msgs))\<rparr>\<rparr>"
proof (induction msgs arbitrary: b s)
  case Nil
  then show ?case by simp
next
  case (Cons m msgs)
  from Cons.prems obtain b1 s1 where 1: "process_message lo hi m (b, s) = Inr (b1, s1)"
    and 2: "process_messages lo hi msgs (b1, s1) = Inr (b', s')"
    by (auto split: sum.splits)
  note e1 = process_message_effect[OF 1]
  note ih = Cons.IH[OF 2]
  from e1 have b1: "b1 = (b \<or> is_early lo hi m)" by simp
  from e1 have t1: "m_timeBase s1 = m_timeBase s" by simp
  from e1 have q1: "m_receiveQueue s1 =
      (if in_window lo hi m then store_received (m_timeBase s) (m_receiveQueue s) m else m_receiveQueue s)"
    by simp
  from e1 have c1: "m_counters s1 = (m_counters s)
              \<lparr>MessagesRead := MessagesRead (m_counters s) + 1,
               MessagesDiscardedLate := MessagesDiscardedLate (m_counters s) + (if is_late lo m then 1 else 0),
               MessagesDiscardedEarly := MessagesDiscardedEarly (m_counters s) + (if is_early lo hi m then 1 else 0)\<rparr>"
    by simp
  from e1 have s1: "s1 = s\<lparr>m_receiveQueue := m_receiveQueue s1, m_counters := m_counters s1\<rparr>"
    by simp
  have b': "b' = (b \<or> (\<exists>x \<in> set (m # msgs). is_early lo hi x))"
    using ih b1 by auto
  have q': "m_receiveQueue s' = foldl (store_received (m_timeBase s)) (m_receiveQueue s)
                               (filter (in_window lo hi) (m # msgs))"
    using ih t1 q1 by simp
  have c': "m_counters s' = (m_counters s)
            \<lparr>MessagesRead := MessagesRead (m_counters s) + of_nat (length (m # msgs)),
             MessagesDiscardedLate := MessagesDiscardedLate (m_counters s)
                                       + of_nat (length (filter (is_late lo) (m # msgs))),
             MessagesDiscardedEarly := MessagesDiscardedEarly (m_counters s)
                                       + of_nat (length (filter (is_early lo hi) (m # msgs)))\<rparr>"
    using ih c1 by (simp add: algebra_simps)
  have "s' = s1\<lparr>m_receiveQueue := m_receiveQueue s', m_counters := m_counters s'\<rparr>"
    using ih by simp
  with s1 have "s' = s\<lparr>m_receiveQueue := m_receiveQueue s', m_counters := m_counters s'\<rparr>"
    by (metis (no_types) ReliableMessageChannel.update_convs(6) ReliableMessageChannel.update_convs(7) ReliableMessageChannel.surjective)
  with b' q' c' show ?case by simp
qed

lemmas channel4_eval = channel_eval example_config4_def example_channel4_def Suc_4

text \<open>
  Claim C3, as stated, fails for a message id that the wraparound comparison puts both
  below \<open>m_receiveMessageId\<close> and above the end of the window. With the window from 0 to
  3, the id 32769 is above 3, but the first test of the loop counts it as late:
  \<open>MessagesDiscardedEarly\<close> stays 0 and \<open>ProcessData\<close> does not throw.
\<close>

theorem ProcessData_counterexample:
  "sequence_greater_than 32769 (m_receiveMessageId example_channel4
                                  + word_of_int (receiveQueueSize example_config4) - 1)
   \<and> fst (projr (ProcessData example_config4 0 [example_message 32769] example_channel4)) = None
   \<and> MessagesDiscardedEarly (m_counters (snd (projr
         (ProcessData example_config4 0 [example_message 32769] example_channel4)))) = 0
   \<and> MessagesDiscardedLate (m_counters (snd (projr
         (ProcessData example_config4 0 [example_message 32769] example_channel4)))) = 1"
  by (simp add: channel4_eval)

text \<open>
  Claim C3 (amended). Whenever \<open>ProcessData\<close> fails no assertion, it has gone through the
  whole payload, and: \<open>MessagesRead\<close> has grown by the number of messages,
  \<open>MessagesDiscardedLate\<close> by the number of messages with an id below
  \<open>m_receiveMessageId\<close>, \<open>MessagesDiscardedEarly\<close> by the number of messages that are not
  below it and above \<open>m_receiveMessageId + receiveQueueSize - 1\<close>; the receive queue is the
  old one with the remaining messages, and no others, written to their slots in the order
  of the payload; nothing else has changed; and \<open>EarlyMessage\<close> is thrown, after all that,
  if and only if a message was counted early.
\<close>

theorem ProcessData_effect:
  assumes "ProcessData cfg seq msgs s = Inr (r, s')"
  shows "s' = s\<lparr>m_receiveQueue :=
               foldl (store_received (m_timeBase s)) (m_receiveQueue s)
                 (filter (in_window (m_receiveMessageId s)
                            (m_receiveMessageId s + word_of_int (receiveQueueSize cfg) - 1)) msgs),
             m_counters := (m_counters s)
               \<lparr>MessagesRead := MessagesRead (m_counters s) + of_nat (length msgs),
                MessagesDiscardedLate := MessagesDiscardedLate (m_counters s)
                   + of_nat (length (filter (is_late (m_receiveMessageId s)) msgs)),
                MessagesDiscardedEarly := MessagesDiscardedEarly (m_counters s)
                   + of_nat (length (filter (is_early (m_receiveMessageId s)
                            (m_receiveMessageId s + word_of_int (receiveQueueSize cfg) - 1)) msgs))\<rparr>\<rparr>
     \<and> r = (if \<exists>m \<in> set msgs. is_early (m_receiveMessageId s)
                     (m_receiveMessageId s + word_of_int (receiveQueueSize cfg) - 1) m
              then Some EarlyMessage else None)"
proof -
  let ?hi = "m_receiveMessageId s + word_of_int (receiveQueueSize cfg) - 1"
  have "\<exists>b. process_messages (m_receiveMessageId s) ?hi msgs (False, s) = Inr (b, s') \<and>
            r = (if b then Some EarlyMessage else None)"
  proof (cases "process_messages (m_receiveMessageId s) ?hi msgs (False, s)")
    case (Inl f)
    with assms show ?thesis by (simp add: ProcessData_def)
  next
    case (Inr st)
    obtain b s1 where st: "st = (b, s1)" by (cases st)
    from assms Inr st have "s1 = s'" "r = (if b then Some EarlyMessage else None)"
      by (cases b; simp add: ProcessData_def)+
    with Inr st show ?thesis by simp
  qed
  then obtain b where
    p: "process_messages (m_receiveMessageId s)
          (m_receiveMessageId s + word_of_int (receiveQueueSize cfg) - 1) msgs (False, s) = Inr (b, s')"
    and r: "r = (if b then Some EarlyMessage else None)"
    by blast
  note e = process_messages_effect[OF p]
  from e have 1: "b = (False \<or> (\<exists>m \<in> set msgs. is_early (m_receiveMessageId s)
                     (m_receiveMessageId s + word_of_int (receiveQueueSize cfg) - 1) m))"
    by (rule conjunct1)
  from r 1 have 2: "r = (if \<exists>m \<in> set msgs. is_early (m_receiveMessageId s)
                     (m_receiveMessageId s + word_of_int (receiveQueueSize cfg) - 1) m
              then Some EarlyMessage else None)"
    by simp
  from e[THEN conjunct2] 2 show ?thesis by (rule conjI)
qed

theorem ProcessData_effect_witness:
  "\<exists>s'. ProcessData example_config4 0
           [example_message 2, example_message 10, example_message 65534] example_channel4
          = Inr (Some EarlyMessage, s')
     \<and> MessagesRead (m_counters s') = 3
     \<and> MessagesDiscardedLate (m_counters s') = 1
     \<and> MessagesDiscardedEarly (m_counters s') = 1
     \<and> m_receiveQueue s' = store_received 0 (m_receiveQueue example_channel4) (example_message 2)
     \<and> Find (m_receiveQueue s') 2 \<noteq> None"
proof -
  have ev: "\<exists>s'. ProcessData example_config4 0
           [example_message 2, example_message 10, example_message 65534] example_channel4
          = Inr (Some EarlyMessage, s')"
    by (simp add: channel4_eval)
  then obtain s' where P: "ProcessData example_config4 0
           [example_message 2, example_message 10, example_message 65534] example_channel4
          = Inr (Some EarlyMessage, s')" by blast
  have cls: "in_window 0 3 (example_message 2)" "is_early 0 3 (example_message 10)"
    "is_late 0 (example_message 65534)" "\<not> is_late 0 (example_message 2)"
    "\<not> is_late 0 (example_message 10)" "\<not> is_early 0 3 (example_message 2)"
    "\<not> is_early 0 3 (example_message 65534)" "\<not> in_window 0 3 (example_message 10)"
    "\<not> in_window 0 3 (example_message 65534)"
    by (simp_all add: is_late_def is_early_def in_window_def channel_eval)
  from ProcessData_effect[OF P] cls
  have "MessagesRead (m_counters s') = 3 \<and> MessagesDiscardedLate (m_counters s') = 1
     \<and> MessagesDiscardedEarly (m_counters s') = 1
     \<and> m_receiveQueue s' = store_received 0 (m_receiveQueue example_channel4) (example_message 2)"
    by (simp add: example_config4_def example_channel4_def example_channel_def example_config_def)
  moreover from this have "Find (m_receiveQueue s') 2 \<noteq> None"
    by (simp add: store_received_def channel_eval example_channel4_def Suc_4)
  ultimately show ?thesis using P by blast
qed

text \<open>
  Claim C4 does not hold of the code. A message of the window whose id is already in the
  receive queue finds its slot occupied by an entry with the same sequence number, so
  \<open>HasSlotAvailable\<close> is false and \<open>Insert\<close> returns false without writing; the
  \<open>assert( result )\<close> that follows in \<open>ProcessData\<close> then fails.
\<close>

theorem ProcessData_duplicate_fails:
  assumes len: "0 < length (m_receiveQueue s)"
    and dup: "Find (m_receiveQueue s) (msg_id msg) \<noteq> None"
    and win: "in_window (m_receiveMessageId s)
                (m_receiveMessageId s + word_of_int (receiveQueueSize cfg) - 1) msg"
  shows "Insert (m_receiveQueue s) (ReceiveQueueEntry_new msg (msg_id msg) (m_timeBase s))
           = (False, m_receiveQueue s)
       \<and> ProcessData cfg seq (msg # msgs) s = Inl AssertionFailed"
proof -
  from dup obtain e where e: "Find (m_receiveQueue s) (msg_id msg) = Some e" by auto
  from Find_SomeD[OF e] len have na: "\<not> HasSlotAvailable (m_receiveQueue s) (msg_id msg)"
    by (auto simp: HasSlotAvailable_def Let_def)
  then have 1: "Insert (m_receiveQueue s) (ReceiveQueueEntry_new msg (msg_id msg) (m_timeBase s))
           = (False, m_receiveQueue s)"
    by (simp add: Insert_def ReceiveQueueEntry_new_def)
  from win 1 have "process_message (m_receiveMessageId s)
                (m_receiveMessageId s + word_of_int (receiveQueueSize cfg) - 1) msg (False, s)
              = Inl AssertionFailed"
    by (simp add: process_message_def in_window_def is_late_def Let_def)
  then have "ProcessData cfg seq (msg # msgs) s = Inl AssertionFailed"
    by (simp add: ProcessData_def Let_def)
  with 1 show ?thesis by simp
qed

theorem ProcessData_duplicate_fails_witness:
  "\<exists>s. ProcessData example_config 0 [example_message 0] example_channel = Inr (None, s)
     \<and> 0 < length (m_receiveQueue s)
     \<and> Find (m_receiveQueue s) (msg_id (example_message 0)) \<noteq> None
     \<and> in_window (m_receiveMessageId s)
           (m_receiveMessageId s + word_of_int (receiveQueueSize example_config) - 1) (example_message 0)
     \<and> ProcessData example_config 1 [example_message 0] s = Inl AssertionFailed"
proof -
  have "\<exists>s. ProcessData example_config 0 [example_message 0] example_channel = Inr (None, s)
     \<and> 0 < length (m_receiveQueue s)
     \<and> Find (m_receiveQueue s) (msg_id (example_message 0)) \<noteq> None
     \<and> in_window (m_receiveMessageId s)
           (m_receiveMessageId s + word_of_int (receiveQueueSize example_config) - 1) (example_message 0)"
    by (simp add: channel_eval in_window_def is_late_def)
  then obtain s where h: "ProcessData example_config 0 [example_message 0] example_channel = Inr (None, s)"
    "0 < length (m_receiveQueue s)"
    "Find (m_receiveQueue s) (msg_id (example_message 0)) \<noteq> None"
    "in_window (m_receiveMessageId s)
           (m_receiveMessageId s + word_of_int (receiveQueueSize example_config) - 1) (example_message 0)"
    by blast
  from ProcessData_duplicate_fails[OF h(2,3,4), of 1 "[]"] h show ?thesis by blast
qed

end
